theory Spec2Isabelle
  imports Main "HOL-Library.Word" "HOL-Library.List_Lexorder"
begin

unbundle bit_operations_syntax

section \<open>Bytes, errors and Python list indexing\<close>

text \<open>
  The scripts work on Python \<open>bytes\<close> values (32-byte hashes, 20-byte addresses). A byte is
  an \<open>8 word\<close>; a \<open>bytes\<close> value is a list of them. Python compares two \<open>bytes\<close>
  objects lexicographically on the unsigned byte values, a proper prefix being smaller;
  this is the order \<open><\<close> of \<open>HOL-Library.List_Lexorder\<close> on \<open>8 word list\<close>.
\<close>

type_synonym byte = "8 word"
type_synonym bytes = "byte list"

text \<open>Exceptions raised by the scripts and by the libraries they call.\<close>

datatype error = ValueError string | IndexError | TypeError | InvalidAddress

text \<open>
  \<open>xs[i]\<close> on a Python list: a negative index counts from the end, anything outside
  \<open>[-len, len)\<close> raises IndexError.
\<close>

definition py_index :: "'a list \<Rightarrow> int \<Rightarrow> error + 'a" where
  "py_index xs i =
     (if 0 \<le> i \<and> i < int (length xs) then Inr (xs ! nat i)
      else if - int (length xs) \<le> i \<and> i < 0 then Inr (xs ! nat (int (length xs) + i))
      else Inl IndexError)"

section \<open>Keccak-256\<close>

text \<open>
  \<open>eth_utils.keccak\<close> and \<open>Web3.solidity_keccak\<close> are library functions; both end in
  Keccak-256 (rate 136 bytes, padding byte \<open>0x01\<close>, 32 bytes of output). The model below is
  the Keccak-f[1600] permutation on 25 lanes of 64 bits. A lane is a list of 64 bits, most
  significant bit first, so that a left rotation is \<open>drop n w @ take n w\<close>; lane \<open>(x, y)\<close> of
  the state is component \<open>x + 5 * y\<close> of the tuple.
\<close>

type_synonym lane = "bool list"
type_synonym row = "lane \<times> lane \<times> lane \<times> lane \<times> lane"
type_synonym state =
  "lane \<times> lane \<times> lane \<times> lane \<times> lane \<times> lane \<times> lane \<times> lane \<times> lane \<times> lane \<times>
   lane \<times> lane \<times> lane \<times> lane \<times> lane \<times> lane \<times> lane \<times> lane \<times> lane \<times> lane \<times>
   lane \<times> lane \<times> lane \<times> lane \<times> lane"

text \<open>\<open>bits_be w n acc\<close> puts the \<open>w\<close> low bits of \<open>n\<close>, most significant first, before \<open>acc\<close>.\<close>

fun bits_be :: "nat \<Rightarrow> nat \<Rightarrow> bool list \<Rightarrow> bool list" where
  "bits_be 0 n acc = acc"
| "bits_be (Suc w) n acc = bits_be w (n div 2) (odd n # acc)"

fun lane_xor :: "lane \<Rightarrow> lane \<Rightarrow> lane" where
  "lane_xor (a # as) (b # bs) = (a \<noteq> b) # lane_xor as bs"
| "lane_xor as [] = as"
| "lane_xor [] bs = []"

fun lane_andn :: "lane \<Rightarrow> lane \<Rightarrow> lane" where
  "lane_andn (a # as) (b # bs) = (\<not> a \<and> b) # lane_andn as bs"
| "lane_andn as [] = []"
| "lane_andn [] bs = []"

definition rotl64 :: "lane \<Rightarrow> nat \<Rightarrow> lane" where
  "rotl64 w n = drop n w @ take n w"

definition xor5 :: "lane \<Rightarrow> lane \<Rightarrow> lane \<Rightarrow> lane \<Rightarrow> lane \<Rightarrow> lane" where
  "xor5 a b c d e = lane_xor (lane_xor (lane_xor (lane_xor a b) c) d) e"

fun theta_c :: "state \<Rightarrow> row" where
  "theta_c (a0, a1, a2, a3, a4, a5, a6, a7, a8, a9, a10, a11, a12,
     a13, a14, a15, a16, a17, a18, a19, a20, a21, a22, a23, a24) =
    (xor5 a0 a5 a10 a15 a20, xor5 a1 a6 a11 a16 a21,
     xor5 a2 a7 a12 a17 a22, xor5 a3 a8 a13 a18 a23,
     xor5 a4 a9 a14 a19 a24)"

fun theta_d :: "row \<Rightarrow> row" where
  "theta_d (c0, c1, c2, c3, c4) =
    (lane_xor c4 (rotl64 c1 1), lane_xor c0 (rotl64 c2 1),
     lane_xor c1 (rotl64 c3 1), lane_xor c2 (rotl64 c4 1),
     lane_xor c3 (rotl64 c0 1))"

fun theta_x :: "row \<Rightarrow> state \<Rightarrow> state" where
  "theta_x (d0, d1, d2, d3, d4)
    (a0, a1, a2, a3, a4, a5, a6, a7, a8, a9, a10, a11, a12,
     a13, a14, a15, a16, a17, a18, a19, a20, a21, a22, a23, a24) =
    (lane_xor a0 d0, lane_xor a1 d1, lane_xor a2 d2, lane_xor a3 d3, lane_xor a4 d4,
     lane_xor a5 d0, lane_xor a6 d1, lane_xor a7 d2, lane_xor a8 d3, lane_xor a9 d4,
     lane_xor a10 d0, lane_xor a11 d1, lane_xor a12 d2, lane_xor a13 d3, lane_xor a14 d4,
     lane_xor a15 d0, lane_xor a16 d1, lane_xor a17 d2, lane_xor a18 d3, lane_xor a19 d4,
     lane_xor a20 d0, lane_xor a21 d1, lane_xor a22 d2, lane_xor a23 d3, lane_xor a24 d4)"

definition theta :: "state \<Rightarrow> state" where
  "theta s = theta_x (theta_d (theta_c s)) s"

fun rho_pi :: "state \<Rightarrow> state" where
  "rho_pi (a0, a1, a2, a3, a4, a5, a6, a7, a8, a9, a10, a11, a12,
     a13, a14, a15, a16, a17, a18, a19, a20, a21, a22, a23, a24) =
    (rotl64 a0 0, rotl64 a6 44, rotl64 a12 43, rotl64 a18 21, rotl64 a24 14,
     rotl64 a3 28, rotl64 a9 20, rotl64 a10 3, rotl64 a16 45, rotl64 a22 61,
     rotl64 a1 1, rotl64 a7 6, rotl64 a13 25, rotl64 a19 8, rotl64 a20 18,
     rotl64 a4 27, rotl64 a5 36, rotl64 a11 10, rotl64 a17 15, rotl64 a23 56,
     rotl64 a2 62, rotl64 a8 55, rotl64 a14 39, rotl64 a15 41, rotl64 a21 2)"

fun chi :: "state \<Rightarrow> state" where
  "chi (a0, a1, a2, a3, a4, a5, a6, a7, a8, a9, a10, a11, a12,
     a13, a14, a15, a16, a17, a18, a19, a20, a21, a22, a23, a24) =
    (lane_xor a0 (lane_andn a1 a2), lane_xor a1 (lane_andn a2 a3), lane_xor a2 (lane_andn a3 a4),
     lane_xor a3 (lane_andn a4 a0), lane_xor a4 (lane_andn a0 a1), lane_xor a5 (lane_andn a6 a7),
     lane_xor a6 (lane_andn a7 a8), lane_xor a7 (lane_andn a8 a9), lane_xor a8 (lane_andn a9 a5),
     lane_xor a9 (lane_andn a5 a6), lane_xor a10 (lane_andn a11 a12), lane_xor a11 (lane_andn a12 a13),
     lane_xor a12 (lane_andn a13 a14), lane_xor a13 (lane_andn a14 a10), lane_xor a14 (lane_andn a10 a11),
     lane_xor a15 (lane_andn a16 a17), lane_xor a16 (lane_andn a17 a18), lane_xor a17 (lane_andn a18 a19),
     lane_xor a18 (lane_andn a19 a15), lane_xor a19 (lane_andn a15 a16), lane_xor a20 (lane_andn a21 a22),
     lane_xor a21 (lane_andn a22 a23), lane_xor a22 (lane_andn a23 a24), lane_xor a23 (lane_andn a24 a20),
     lane_xor a24 (lane_andn a20 a21))"

fun iota :: "nat \<Rightarrow> state \<Rightarrow> state" where
  "iota rc (a0, rest) = (lane_xor a0 (bits_be 64 rc []), rest)"

definition keccak_round :: "state \<Rightarrow> nat \<Rightarrow> state" where
  "keccak_round s rc = iota rc (chi (rho_pi (theta s)))"

definition round_constants :: "nat list" where
  "round_constants =
    [0x0000000000000001, 0x0000000000008082, 0x800000000000808A, 0x8000000080008000,
     0x000000000000808B, 0x0000000080000001, 0x8000000080008081, 0x8000000000008009,
     0x000000000000008A, 0x0000000000000088, 0x0000000080008009, 0x000000008000000A,
     0x000000008000808B, 0x800000000000008B, 0x8000000000008089, 0x8000000000008003,
     0x8000000000008002, 0x8000000000000080, 0x000000000000800A, 0x800000008000000A,
     0x8000000080008081, 0x8000000000008080, 0x0000000080000001, 0x8000000080008008]"

definition keccak_f :: "state \<Rightarrow> state" where
  "keccak_f s = foldl keccak_round s round_constants"

definition bits_of_byte :: "byte \<Rightarrow> bool list" where
  "bits_of_byte b = bits_be 8 (unat b) []"

definition byte_of_bits :: "bool list \<Rightarrow> byte" where
  "byte_of_bits bs = horner_sum of_bool 2 (rev bs)"

definition lane_of_bytes :: "byte list \<Rightarrow> lane" where
  "lane_of_bytes bs = concat (map bits_of_byte (rev bs))"

definition bytes_of_lane :: "lane \<Rightarrow> byte list" where
  "bytes_of_lane l = map (\<lambda>k. byte_of_bits (take 8 (drop (56 - 8 * k) l))) [0..<8]"

definition block_lanes :: "byte list \<Rightarrow> lane list" where
  "block_lanes blk = map (\<lambda>k. lane_of_bytes (take 8 (drop (8 * k) blk))) [0..<17]"

fun xor_block :: "state \<Rightarrow> lane list \<Rightarrow> state" where
  "xor_block (a0, a1, a2, a3, a4, a5, a6, a7, a8, a9, a10, a11, a12,
     a13, a14, a15, a16, a17, a18, a19, a20, a21, a22, a23, a24) b =
    (lane_xor a0 (b ! 0), lane_xor a1 (b ! 1), lane_xor a2 (b ! 2), lane_xor a3 (b ! 3),
     lane_xor a4 (b ! 4), lane_xor a5 (b ! 5), lane_xor a6 (b ! 6), lane_xor a7 (b ! 7),
     lane_xor a8 (b ! 8), lane_xor a9 (b ! 9), lane_xor a10 (b ! 10), lane_xor a11 (b ! 11),
     lane_xor a12 (b ! 12), lane_xor a13 (b ! 13), lane_xor a14 (b ! 14), lane_xor a15 (b ! 15),
     lane_xor a16 (b ! 16), a17, a18, a19,
     a20, a21, a22, a23,
     a24)"

definition pad101 :: "byte list \<Rightarrow> byte list" where
  "pad101 m =
    (let q = 136 - length m mod 136
     in if q = 1 then m @ [0x81] else m @ [0x01] @ replicate (q - 2) 0 @ [0x80])"

fun absorb :: "nat \<Rightarrow> state \<Rightarrow> byte list \<Rightarrow> state" where
  "absorb 0 s p = s"
| "absorb (Suc n) s p =
     absorb n (keccak_f (xor_block s (block_lanes (take 136 p)))) (drop 136 p)"

definition zero_lane :: lane where
  "zero_lane = replicate 64 False"

definition zero_state :: state where
  "zero_state =
    (zero_lane, zero_lane, zero_lane, zero_lane, zero_lane,
     zero_lane, zero_lane, zero_lane, zero_lane, zero_lane,
     zero_lane, zero_lane, zero_lane, zero_lane, zero_lane,
     zero_lane, zero_lane, zero_lane, zero_lane, zero_lane,
     zero_lane, zero_lane, zero_lane, zero_lane, zero_lane)"

fun squeeze :: "state \<Rightarrow> byte list" where
  "squeeze (a0, a1, a2, a3, rest) =
     bytes_of_lane a0 @ bytes_of_lane a1 @ bytes_of_lane a2 @ bytes_of_lane a3"

definition keccak256 :: "byte list \<Rightarrow> byte list" where
  "keccak256 m =
    (let p = pad101 m in squeeze (absorb (length p div 136) zero_state p))"

section \<open>The batch Merkle tree\<close>

text \<open>
  \<open>class MerkleTree\<close> of \<open>batch/generateBatchRoot.py\<close>; the class of the same name in
  \<open>batch/generateBatchRootDeploy.py\<close> has the same \<open>_build_tree\<close>, \<open>get_root\<close> and
  \<open>get_proof\<close>, line for line, and no \<open>verify_proof\<close>.

  \<open>Web3.solidity_keccak(['bytes32', 'bytes32'], [l, r])\<close> hex-encodes the two \<open>bytes\<close>
  values as they are, concatenates them and hashes the result.
\<close>

definition solidity_keccak_b32 :: "bytes \<Rightarrow> bytes \<Rightarrow> bytes" where
  "solidity_keccak_b32 l r = keccak256 (l @ r)"

text \<open>The body of the inner \<open>for\<close> loop when \<open>i + 1 < len(current)\<close>: swap, then hash.\<close>

definition combine_build :: "bytes \<Rightarrow> bytes \<Rightarrow> bytes" where
  "combine_build left right =
     (if left > right then solidity_keccak_b32 right left else solidity_keccak_b32 left right)"

text \<open>\<open>range(0, n, 2)\<close>.\<close>

definition range_step2 :: "nat \<Rightarrow> nat list" where
  "range_step2 n = map (\<lambda>k. 2 * k) [0..<(n + 1) div 2]"

text \<open>One pass of the inner \<open>for\<close> loop: the list \<open>nxt\<close> built from \<open>current\<close>.\<close>

definition next_level :: "bytes list \<Rightarrow> bytes list" where
  "next_level current =
     map (\<lambda>i. if i + 1 < length current
               then combine_build (current ! i) (current ! (i + 1))
               else current ! i)
         (range_step2 (length current))"

text \<open>The \<open>while len(current) > 1\<close> loop, on the variables \<open>tree\<close> and \<open>current\<close>.\<close>

function build_loop :: "bytes list list \<Rightarrow> bytes list \<Rightarrow> bytes list list" where
  "build_loop tree current =
     (if 1 < length current
      then build_loop (tree @ [next_level current]) (next_level current)
      else tree)"
  by pat_completeness auto
termination
  by (relation "measure (\<lambda>(tree, current). length current)")
     (auto simp: next_level_def range_step2_def)

declare build_loop.simps [simp del]

definition MerkleTree_build_tree :: "bytes list \<Rightarrow> bytes list list" where
  "MerkleTree_build_tree leaves = (if leaves = [] then [[]] else build_loop [leaves] leaves)"

text \<open>\<open>self.tree[-1][0] if self.tree and self.tree[-1] else b'\x00' * 32\<close>\<close>

definition get_root :: "bytes list list \<Rightarrow> bytes" where
  "get_root tree = (if tree \<noteq> [] \<and> last tree \<noteq> [] then hd (last tree) else replicate 32 0)"

text \<open>
  \<open>get_proof\<close>: the loop over \<open>level in range(len(self.tree) - 1)\<close>, on the variables
  \<open>idx\<close> and \<open>proof\<close>. The first argument holds the levels still to visit. \<open>index\<close> is a
  Python \<open>int\<close>; \<open>%\<close> and \<open>//\<close> round towards minus infinity, as \<open>mod\<close> and \<open>div\<close> do.
\<close>

fun get_proof_loop :: "bytes list list \<Rightarrow> int \<Rightarrow> bytes list \<Rightarrow> error + bytes list" where
  "get_proof_loop [] idx prf = Inr prf"
| "get_proof_loop (cur # rest) idx prf =
     (if idx mod 2 = 0 then
        (if idx + 1 < int (length cur) then
           (case py_index cur (idx + 1) of
              Inl e \<Rightarrow> Inl e
            | Inr v \<Rightarrow> get_proof_loop rest (idx div 2) (prf @ [v]))
         else get_proof_loop rest (idx div 2) prf)
      else
        (case py_index cur (idx - 1) of
           Inl e \<Rightarrow> Inl e
         | Inr v \<Rightarrow> get_proof_loop rest (idx div 2) (prf @ [v])))"

definition get_proof :: "bytes list list \<Rightarrow> int \<Rightarrow> error + bytes list" where
  "get_proof tree index = get_proof_loop (take (length tree - 1) tree) index []"

text \<open>One step of the loop of \<open>verify_proof\<close>, and the method itself.\<close>

definition combine_verify :: "bytes \<Rightarrow> bytes \<Rightarrow> bytes" where
  "combine_verify computed p =
     (if computed \<le> p then solidity_keccak_b32 computed p else solidity_keccak_b32 p computed)"

definition verify_proof :: "bytes \<Rightarrow> bytes list \<Rightarrow> bytes \<Rightarrow> bool" where
  "verify_proof leaf prf root = (foldl combine_verify leaf prf = root)"

section \<open>The whitelist trees\<close>

subsection \<open>\<open>whitelist/generateRoot.py\<close>\<close>

definition hash_pair :: "bytes \<Rightarrow> bytes \<Rightarrow> bytes" where
  "hash_pair a b = (if a < b then keccak256 (a @ b) else keccak256 (b @ a))"

text \<open>The list \<open>nxt\<close> that one pass of the \<open>for\<close> loop of \<open>build_tree\<close> makes from \<open>cur\<close>.\<close>

definition next_layer :: "bytes list \<Rightarrow> bytes list" where
  "next_layer cur =
     map (\<lambda>i. let l = cur ! i;
                  r = (if i + 1 < length cur then cur ! (i + 1) else cur ! i)
              in hash_pair l r)
         (range_step2 (length cur))"

text \<open>The \<open>while len(layers[-1]) > 1\<close> loop on \<open>layers\<close>; \<open>build_tree\<close> starts it at \<open>[leaves[:]]\<close>.\<close>

function layers_loop :: "bytes list list \<Rightarrow> bytes list list" where
  "layers_loop layers =
     (if 1 < length (last layers)
      then layers_loop (layers @ [next_layer (last layers)])
      else layers)"
  by pat_completeness auto
termination
  by (relation "measure (\<lambda>layers. length (last layers))")
     (auto simp: next_layer_def range_step2_def)

declare layers_loop.simps [simp del]

definition build_tree :: "bytes list \<Rightarrow> bytes list list" where
  "build_tree leaves = layers_loop [leaves]"

text \<open>
  \<open>proof(layers, idx)\<close>: the loop over \<open>layers[:-1]\<close>. \<open>idx ^ 1\<close> is exclusive or on Python
  integers; the guard \<open>sib < len(layer)\<close> lets a negative \<open>sib\<close> through to \<open>layer[sib]\<close>.
\<close>

fun proof_loop :: "bytes list list \<Rightarrow> int \<Rightarrow> bytes list \<Rightarrow> error + bytes list" where
  "proof_loop [] idx pf = Inr pf"
| "proof_loop (layer # rest) idx pf =
     (let sib = idx XOR 1 in
      if sib < int (length layer) then
        (case py_index layer sib of
           Inl e \<Rightarrow> Inl e
         | Inr v \<Rightarrow> proof_loop rest (idx div 2) (pf @ [v]))
      else proof_loop rest (idx div 2) pf)"

definition proof_of :: "bytes list list \<Rightarrow> int \<Rightarrow> error + bytes list" where
  "proof_of layers idx = proof_loop (butlast layers) idx []"

definition verify_step :: "bytes \<Rightarrow> bytes \<Rightarrow> bytes" where
  "verify_step h p = (if h < p then keccak256 (h @ p) else keccak256 (p @ h))"

definition verify_sorted :: "bytes \<Rightarrow> bytes list \<Rightarrow> bytes \<Rightarrow> bool" where
  "verify_sorted leaf pf rt = (foldl verify_step leaf pf = rt)"

subsection \<open>\<open>whitelist/generateWhitelistRootDeploy.py\<close>\<close>

text \<open>The list \<open>next_layer\<close> that one pass of the \<open>for\<close> loop of \<open>merkle_tree\<close> makes.\<close>

definition deploy_next_layer :: "bytes list \<Rightarrow> bytes list" where
  "deploy_next_layer layer =
     map (\<lambda>i. let left = layer ! i;
                  right = (if i + 1 < length layer then layer ! (i + 1) else layer ! i)
              in if left > right then keccak256 (right @ left) else keccak256 (left @ right))
         (range_step2 (length layer))"

function merkle_tree_loop :: "bytes list list \<Rightarrow> bytes list list" where
  "merkle_tree_loop tree =
     (if 1 < length (last tree)
      then merkle_tree_loop (tree @ [deploy_next_layer (last tree)])
      else tree)"
  by pat_completeness auto
termination
  by (relation "measure (\<lambda>tree. length (last tree))")
     (auto simp: deploy_next_layer_def range_step2_def)

declare merkle_tree_loop.simps [simp del]

definition merkle_tree :: "bytes list \<Rightarrow> bytes list list" where
  "merkle_tree leaves = merkle_tree_loop [leaves]"

text \<open>\<open>tree[-1][0] if tree else None\<close>: \<open>None\<close> for the empty list, else the indexing.\<close>

definition merkle_root :: "bytes list list \<Rightarrow> error + bytes option" where
  "merkle_root tree =
     (if tree = [] then Inr None
      else case py_index tree (-1) of
             Inl e \<Rightarrow> Inl e
           | Inr l \<Rightarrow> (case py_index l 0 of Inl e \<Rightarrow> Inl e | Inr v \<Rightarrow> Inr (Some v)))"

section \<open>Hexadecimal text and addresses\<close>

text \<open>
  Addresses reach the scripts as Python strings. A character is a \<open>char\<close>; the functions
  below read its code with \<open>of_char\<close>. \<open>str.lower\<close> and \<open>str.upper\<close> are modelled on the
  ASCII letters, which is all that a string of hexadecimal digits can hold.
\<close>

definition hex_val :: "char \<Rightarrow> nat option" where
  "hex_val c =
     (let n = (of_char c :: nat) in
      if 48 \<le> n \<and> n \<le> 57 then Some (n - 48)
      else if 97 \<le> n \<and> n \<le> 102 then Some (n - 87)
      else if 65 \<le> n \<and> n \<le> 70 then Some (n - 55)
      else None)"

definition is_hex_digit :: "char \<Rightarrow> bool" where
  "is_hex_digit c = (hex_val c \<noteq> None)"

definition hex_char :: "nat \<Rightarrow> char" where
  "hex_char v = char_of (if v < 10 then 48 + v else 87 + v)"

definition lower_char :: "char \<Rightarrow> char" where
  "lower_char c = (let n = (of_char c :: nat) in if 65 \<le> n \<and> n \<le> 90 then char_of (n + 32) else c)"

definition upper_char :: "char \<Rightarrow> char" where
  "upper_char c = (let n = (of_char c :: nat) in if 97 \<le> n \<and> n \<le> 122 then char_of (n - 32) else c)"

text \<open>The characters that \<open>str.strip()\<close> removes, among the first 256 code points.\<close>

definition is_space :: "char \<Rightarrow> bool" where
  "is_space c =
     (let n = (of_char c :: nat) in
      (9 \<le> n \<and> n \<le> 13) \<or> (28 \<le> n \<and> n \<le> 32) \<or> n = 133 \<or> n = 160)"

definition strip :: "string \<Rightarrow> string" where
  "strip s = rev (dropWhile is_space (rev (dropWhile is_space s)))"

text \<open>\<open>eth_utils.remove_0x_prefix\<close>: a leading \<open>0x\<close> or \<open>0X\<close> is dropped.\<close>

definition remove_0x_prefix :: "string \<Rightarrow> string" where
  "remove_0x_prefix s = (if take 2 s = ''0x'' \<or> take 2 s = ''0X'' then drop 2 s else s)"

text \<open>
  \<open>eth_utils.is_hex_address\<close>: an optional \<open>0x\<close> prefix, then exactly 40 hexadecimal digits
  of either case.
\<close>

definition is_hex_address :: "string \<Rightarrow> bool" where
  "is_hex_address s =
     (length (remove_0x_prefix s) = 40 \<and> list_all is_hex_digit (remove_0x_prefix s))"

text \<open>
  Decoding hexadecimal text, two digits to the byte, as \<open>bytes.fromhex\<close> and
  \<open>eth_utils.decode_hex\<close> do on text without whitespace: \<open>None\<close> stands for their ValueError
  (a character that is no digit, or a digit left over).
\<close>

fun decode_hex :: "string \<Rightarrow> bytes option" where
  "decode_hex [] = Some []"
| "decode_hex [c] = None"
| "decode_hex (c # d # rest) =
     (case hex_val c of
        None \<Rightarrow> None
      | Some h \<Rightarrow>
          (case hex_val d of
             None \<Rightarrow> None
           | Some l \<Rightarrow>
               (case decode_hex rest of
                  None \<Rightarrow> None
                | Some bs \<Rightarrow> Some (of_nat (16 * h + l) # bs))))"

text \<open>\<open>hex(n)\<close> without its \<open>0x\<close>: the digits of \<open>n\<close>, at least one, no leading zero.\<close>

function hex_of_nat :: "nat \<Rightarrow> string" where
  "hex_of_nat n = (if n < 16 then [hex_char n] else hex_of_nat (n div 16) @ [hex_char (n mod 16)])"
  by pat_completeness auto
termination
  by (relation "measure id") auto

declare hex_of_nat.simps [simp del]

text \<open>\<open>str.zfill\<close>: zeros on the left up to the width, nothing cut off.\<close>

definition zfill :: "nat \<Rightarrow> string \<Rightarrow> string" where
  "zfill w s = replicate (w - length s) (CHR ''0'') @ s"

section \<open>The whitelist leaves\<close>

subsection \<open>\<open>normalize\<close> and \<open>leaf_hash\<close> of \<open>whitelist/generateRoot.py\<close>\<close>

definition normalize :: "string \<Rightarrow> error + string" where
  "normalize addr =
     (let addr1 = strip addr;
          addr2 = (if take 2 addr1 = ''0x'' then addr1 else ''0x'' @ addr1)
      in if \<not> is_hex_address addr2 then Inl (ValueError (''Invalid address: '' @ addr2))
         else Inr (map lower_char addr2))"

definition leaf_hash :: "string \<Rightarrow> error + bytes" where
  "leaf_hash addr =
     (case normalize addr of
        Inl e \<Rightarrow> Inl e
      | Inr a \<Rightarrow>
          (case decode_hex (drop 2 a) of
             None \<Rightarrow> Inl (ValueError ''fromhex'')
           | Some b20 \<Rightarrow> Inr (keccak256 (replicate 12 0 @ b20))))"

subsection \<open>\<open>tron_to_evm_bytes32\<close> of \<open>whitelist/generateWhitelistRootDeploy.py\<close>\<close>

text \<open>
  \<open>base58.b58decode_check\<close> is a library function: it is a parameter here. The script takes
  \<open>raw[1:]\<close> of what it returns and hashes the padded result once for the leaf
  (\<open>keccak(tron_to_evm_bytes32(addr))\<close>).
\<close>

definition tron_to_evm_bytes32 :: "(string \<Rightarrow> error + bytes) \<Rightarrow> string \<Rightarrow> error + bytes" where
  "tron_to_evm_bytes32 b58decode_check tron_addr =
     (case b58decode_check tron_addr of
        Inl e \<Rightarrow> Inl e
      | Inr raw \<Rightarrow> Inr (replicate 12 0 @ drop 1 raw))"

definition deploy_leaf :: "(string \<Rightarrow> error + bytes) \<Rightarrow> string \<Rightarrow> error + bytes" where
  "deploy_leaf b58decode_check tron_addr =
     (case tron_to_evm_bytes32 b58decode_check tron_addr of
        Inl e \<Rightarrow> Inl e
      | Inr b \<Rightarrow> Inr (keccak256 b))"

section \<open>The transfer leaf\<close>

subsection \<open>The library: checksum addresses and \<open>Web3.solidity_keccak\<close>\<close>

text \<open>
  \<open>Web3.to_checksum_address\<close>: the text is lower-cased and given the \<open>0x\<close> prefix, refused
  with ValueError unless it is a hex address, and then each letter is put in upper case
  where the matching hexadecimal digit of the Keccak-256 digest of the 40 lower-case
  characters is above 7 (EIP-55).
\<close>

definition byte_of_char :: "char \<Rightarrow> byte" where
  "byte_of_char c = of_char c"

definition nibbles :: "bytes \<Rightarrow> nat list" where
  "nibbles bs = concat (map (\<lambda>b. [unat b div 16, unat b mod 16]) bs)"

definition checksum_case :: "string \<Rightarrow> string" where
  "checksum_case body =
     map (\<lambda>(c, h). if 7 < h then upper_char c else c)
         (zip body (nibbles (keccak256 (map byte_of_char body))))"

definition to_normalized_address :: "string \<Rightarrow> error + string" where
  "to_normalized_address v =
     (let hex_address = ''0x'' @ map lower_char (remove_0x_prefix v)
      in if is_hex_address hex_address then Inr hex_address
         else Inl (ValueError ''Unknown format''))"

definition to_checksum_address :: "string \<Rightarrow> error + string" where
  "to_checksum_address v =
     (case to_normalized_address v of
        Inl e \<Rightarrow> Inl e
      | Inr norm_address \<Rightarrow> Inr (''0x'' @ checksum_case (drop 2 norm_address)))"

definition is_checksum_address :: "string \<Rightarrow> bool" where
  "is_checksum_address v = (is_hex_address v \<and> to_checksum_address v = Inr v)"

text \<open>
  \<open>Web3.solidity_keccak(abi_types, values)\<close> validates and hex-encodes each value in turn,
  joins the texts and hashes the bytes they spell. An \<open>address\<close> must be a checksum address
  and is written with its 40 digits. A \<open>uintN\<close> must be a non-negative integer; its digits
  are filled with zeros on the left to \<open>N / 4\<close> characters and are not cut when there are
  more. Joined text of odd length gets one more \<open>0\<close> in front before it is decoded.
\<close>

datatype abi_value = AbiAddress string | AbiUint nat int

fun hex_encode_abi_type :: "abi_value \<Rightarrow> error + string" where
  "hex_encode_abi_type (AbiAddress a) =
     (if is_checksum_address a then Inr (zfill 40 (remove_0x_prefix a)) else Inl InvalidAddress)"
| "hex_encode_abi_type (AbiUint bits v) =
     (if 0 \<le> v then Inr (zfill (bits div 4) (hex_of_nat (nat v))) else Inl TypeError)"

fun hex_encode_all :: "abi_value list \<Rightarrow> error + string" where
  "hex_encode_all [] = Inr []"
| "hex_encode_all (v # vs) =
     (case hex_encode_abi_type v of
        Inl e \<Rightarrow> Inl e
      | Inr h \<Rightarrow> (case hex_encode_all vs of Inl e \<Rightarrow> Inl e | Inr hs \<Rightarrow> Inr (h @ hs)))"

definition keccak_hexstr :: "string \<Rightarrow> error + bytes" where
  "keccak_hexstr h =
     (case decode_hex (if odd (length h) then CHR ''0'' # h else h) of
        None \<Rightarrow> Inl (ValueError ''Non-hexadecimal digit found'')
      | Some bs \<Rightarrow> Inr (keccak256 bs))"

definition solidity_keccak :: "abi_value list \<Rightarrow> error + bytes" where
  "solidity_keccak values =
     (case hex_encode_all values of Inl e \<Rightarrow> Inl e | Inr h \<Rightarrow> keccak_hexstr h)"

subsection \<open>\<open>ensure_uint_bounds\<close> of \<open>batch/generateBatchRootDeploy.py\<close>\<close>

definition ensure_uint_bounds :: "int \<Rightarrow> int \<Rightarrow> int \<Rightarrow> error + unit" where
  "ensure_uint_bounds n t r =
     (if \<not> (0 \<le> n \<and> n \<le> 2 ^ 64 - 1) then Inl (ValueError ''nonce exceeds uint64'')
      else if \<not> (0 \<le> t \<and> t \<le> 2 ^ 48 - 1) then Inl (ValueError ''timestamp exceeds uint48'')
      else if \<not> (0 \<le> r \<and> r \<le> 2 ^ 32 - 1) then Inl (ValueError ''recipient_count exceeds uint32'')
      else Inr ())"

subsection \<open>\<open>TransferData\<close> and \<open>calculate_tx_hash\<close>\<close>

text \<open>
  The dataclass of \<open>batch/generateBatchRoot.py\<close>; the one of the deploy script has two more
  fields, the original Tron addresses, declared there after \<open>to_address\<close>. All fields are
  read by name, and nothing reads these two when hashing.
\<close>

record TransferData =
  from_address :: string
  to_address :: string
  amount :: int
  nonce :: int
  timestamp :: int
  recipient_count :: int
  batch_id :: int
  tx_type :: int
  batch_salt :: int

record TransferDataDeploy = TransferData +
  original_tron_from :: string
  original_tron_to :: string

text \<open>
  \<open>calculate_tx_hash\<close> of \<open>batch/generateBatchRoot.py\<close>. The two calls of
  \<open>to_checksum_address\<close> are made, in this order, while the list of values is built.
\<close>

definition calculate_tx_hash :: "'a TransferData_scheme \<Rightarrow> error + bytes" where
  "calculate_tx_hash tx =
     (case to_checksum_address (from_address tx) of
        Inl e \<Rightarrow> Inl e
      | Inr from_checksum \<Rightarrow>
          (case to_checksum_address (to_address tx) of
             Inl e \<Rightarrow> Inl e
           | Inr to_checksum \<Rightarrow>
               solidity_keccak
                 [AbiAddress from_checksum, AbiAddress to_checksum, AbiUint 256 (amount tx),
                  AbiUint 64 (nonce tx), AbiUint 48 (timestamp tx),
                  AbiUint 32 (recipient_count tx), AbiUint 8 (tx_type tx),
                  AbiUint 64 (batch_salt tx)]))"

text \<open>
  \<open>calculate_tx_hash\<close> of \<open>batch/generateBatchRootDeploy.py\<close>: \<open>ensure_uint_bounds\<close> first,
  then the same call.
\<close>

definition calculate_tx_hash_deploy :: "'a TransferDataDeploy_scheme \<Rightarrow> error + bytes" where
  "calculate_tx_hash_deploy tx =
     (case ensure_uint_bounds (nonce tx) (timestamp tx) (recipient_count tx) of
        Inl e \<Rightarrow> Inl e
      | Inr u \<Rightarrow> calculate_tx_hash tx)"

section \<open>The packed layout of the specification\<close>

text \<open>
  \<open>fixed_hex w n\<close> is the last \<open>w\<close> hexadecimal digits of \<open>n\<close>,
  \<open>uint_be w n\<close> is the big-endian representation of \<open>n\<close> in \<open>w\<close> bytes, and
  \<open>address_bytes\<close> the bytes that the digits of an address spell. \<open>packed_transfer\<close> is the
  concatenation that the specification gives for a transfer record, and \<open>hex_of_bytes\<close>
  the lower-case hexadecimal text of a byte string.
\<close>

fun fixed_hex :: "nat \<Rightarrow> nat \<Rightarrow> string" where
  "fixed_hex 0 n = []"
| "fixed_hex (Suc w) n = fixed_hex w (n div 16) @ [hex_char (n mod 16)]"

fun uint_be :: "nat \<Rightarrow> nat \<Rightarrow> bytes" where
  "uint_be 0 n = []"
| "uint_be (Suc w) n = uint_be w (n div 256) @ [of_nat n]"

definition be_value :: "bytes \<Rightarrow> nat" where
  "be_value bs = foldl (\<lambda>acc b. 256 * acc + unat b) 0 bs"

definition address_bytes :: "string \<Rightarrow> bytes" where
  "address_bytes s = (case decode_hex (remove_0x_prefix s) of None \<Rightarrow> [] | Some bs \<Rightarrow> bs)"

definition packed_transfer :: "'a TransferData_scheme \<Rightarrow> bytes" where
  "packed_transfer tx =
     address_bytes (from_address tx) @ address_bytes (to_address tx) @
     uint_be 32 (nat (amount tx)) @ uint_be 8 (nat (nonce tx)) @
     uint_be 6 (nat (timestamp tx)) @ uint_be 4 (nat (recipient_count tx)) @
     uint_be 1 (nat (tx_type tx)) @ uint_be 8 (nat (batch_salt tx))"

definition in_uint :: "nat \<Rightarrow> int \<Rightarrow> bool" where
  "in_uint bits v = (0 \<le> v \<and> v < 2 ^ bits)"

definition transfer_record :: "'a TransferData_scheme \<Rightarrow> bool" where
  "transfer_record tx =
     (is_hex_address (from_address tx) \<and> is_hex_address (to_address tx) \<and>
      in_uint 256 (amount tx) \<and> in_uint 64 (nonce tx) \<and> in_uint 48 (timestamp tx) \<and>
      in_uint 32 (recipient_count tx) \<and> in_uint 8 (tx_type tx) \<and> in_uint 64 (batch_salt tx))"

definition hex_of_bytes :: "bytes \<Rightarrow> string" where
  "hex_of_bytes bs = concat (map (\<lambda>b. [hex_char (unat b div 16), hex_char (unat b mod 16)]) bs)"

section \<open>Loop invariants\<close>

text \<open>
  The invariant of the \<open>while\<close> loop: \<open>tree\<close> is not empty, its last layer is \<open>current\<close>,
  every layer is \<open>next_level\<close> of the one before, and every layer but the last has more
  than one node.
\<close>

definition tree_inv :: "bytes list list \<Rightarrow> bool" where
  "tree_inv tree =
     (tree \<noteq> [] \<and> successively (\<lambda>l l'. l' = next_level l) tree \<and>
      list_all (\<lambda>l. 1 < length l) (butlast tree))"


section \<open>Example data\<close>

text \<open>Three leaves of 32 bytes each, for the concrete runs below.\<close>

definition leaf_a :: bytes where
  "leaf_a = replicate 32 0x11"

definition leaf_b :: bytes where
  "leaf_b = replicate 32 0x22"

definition leaf_c :: bytes where
  "leaf_c = replicate 32 0x33"

text \<open>
  \<open>keccak256 (leaf_a @ leaf_b)\<close>, \<open>keccak256 (leaf_c @ leaf_c)\<close>, the hash of the first
  followed by the second, and the hash of \<open>leaf_c\<close> followed by the first.
\<close>

definition digest_ab :: bytes where
  "digest_ab =
     [0x3e, 0x92, 0xe0, 0xdb, 0x88, 0xd6, 0xaf, 0xea, 0x9e, 0xdc, 0x4e, 0xed, 0xf6, 0x2f, 0xff, 0xa4,
      0xd9, 0x2b, 0xcd, 0xfc, 0x31, 0x0d, 0xcc, 0xbe, 0x94, 0x37, 0x47, 0xfe, 0x83, 0x02, 0xe8, 0x71]"

definition digest_cc :: bytes where
  "digest_cc =
     [0x97, 0x76, 0x0f, 0x7a, 0x12, 0xf4, 0x84, 0x89, 0x39, 0x11, 0xae, 0x4c, 0x18, 0x36, 0x71, 0xcd,
      0x69, 0xc7, 0xf9, 0xa7, 0x60, 0xf9, 0xf1, 0xc5, 0x93, 0x93, 0xdf, 0x69, 0xe8, 0x93, 0xe5, 0x57]"

definition digest_ab_cc :: bytes where
  "digest_ab_cc =
     [0x61, 0x45, 0xe5, 0x8f, 0x72, 0xce, 0x6b, 0x64, 0x10, 0x69, 0xee, 0x7b, 0xd2, 0xb6, 0xaf, 0x68,
      0x1f, 0xcb, 0xdd, 0x72, 0x3a, 0x4f, 0x79, 0x5f, 0x7d, 0x29, 0x39, 0xd0, 0x0e, 0xb2, 0xd9, 0x1d]"

definition digest_c_ab :: bytes where
  "digest_c_ab =
     [0x87, 0xfb, 0xd8, 0xda, 0xd6, 0x86, 0xd9, 0x53, 0x6b, 0x2e, 0xf6, 0x57, 0x57, 0xc3, 0x41, 0x5d,
      0xf1, 0xb7, 0xa4, 0x66, 0x4d, 0xeb, 0x34, 0xed, 0xa3, 0xd9, 0x12, 0x34, 0x93, 0x6e, 0xb5, 0xfe]"

text \<open>
  A transfer record within the bounds of its fields, the same record for the deploy script,
  and the 99 bytes that its fields make when written one after the other.
\<close>

definition example_tx :: TransferData where
  "example_tx =
     \<lparr>from_address = ''0x1234567890123456789012345678901234567890'',
      to_address = ''0x0000000000000000000000000000000000000001'',
      amount = 1000000, nonce = 1, timestamp = 1700000000, recipient_count = 1,
      batch_id = 7, tx_type = 2, batch_salt = 5\<rparr>"

definition example_tx_deploy :: TransferDataDeploy where
  "example_tx_deploy =
     \<lparr>from_address = ''0x1234567890123456789012345678901234567890'',
      to_address = ''0x0000000000000000000000000000000000000001'',
      amount = 1000000, nonce = 1, timestamp = 1700000000, recipient_count = 1,
      batch_id = 7, tx_type = 2, batch_salt = 5,
      original_tron_from = ''TKWvD71EMFTpFVGZyqqX9fC6MQgcR9H76M'',
      original_tron_to = ''TVKAAcqpQxz3J4waayePr8dQjSQ2XHkdbF''\<rparr>"

definition example_packed :: bytes where
  "example_packed =
     [0x12, 0x34, 0x56, 0x78, 0x90, 0x12, 0x34, 0x56, 0x78, 0x90, 0x12, 0x34, 0x56, 0x78, 0x90, 0x12,
      0x34, 0x56, 0x78, 0x90, 0x00, 0x00, 0x00, 0x00, 0x00, 0x00, 0x00, 0x00, 0x00, 0x00, 0x00, 0x00,
      0x00, 0x00, 0x00, 0x00, 0x00, 0x00, 0x00, 0x01, 0x00, 0x00, 0x00, 0x00, 0x00, 0x00, 0x00, 0x00,
      0x00, 0x00, 0x00, 0x00, 0x00, 0x00, 0x00, 0x00, 0x00, 0x00, 0x00, 0x00, 0x00, 0x00, 0x00, 0x00,
      0x00, 0x00, 0x00, 0x00, 0x00, 0x0f, 0x42, 0x40, 0x00, 0x00, 0x00, 0x00, 0x00, 0x00, 0x00, 0x01,
      0x00, 0x00, 0x65, 0x53, 0xf1, 0x00, 0x00, 0x00, 0x00, 0x01, 0x02, 0x00, 0x00, 0x00, 0x00, 0x00,
      0x00, 0x00, 0x05]"

text \<open>
  The same records with a nonce of \<open>2 ^ 64\<close>, one more than an unsigned 64-bit field can
  hold, and the 100 bytes that \<open>Web3.solidity_keccak\<close> then hashes: the nonce takes 17
  hexadecimal digits, the text has 199, and a \<open>0\<close> is put in front of it.
\<close>

definition overflow_tx :: TransferData where
  "overflow_tx = example_tx\<lparr>nonce := 2 ^ 64\<rparr>"

definition overflow_tx_deploy :: TransferDataDeploy where
  "overflow_tx_deploy = example_tx_deploy\<lparr>nonce := 2 ^ 64\<rparr>"

definition overflow_packed :: bytes where
  "overflow_packed =
     [0x01, 0x23, 0x45, 0x67, 0x89, 0x01, 0x23, 0x45, 0x67, 0x89, 0x01, 0x23, 0x45, 0x67, 0x89, 0x01,
      0x23, 0x45, 0x67, 0x89, 0x00, 0x00, 0x00, 0x00, 0x00, 0x00, 0x00, 0x00, 0x00, 0x00, 0x00, 0x00,
      0x00, 0x00, 0x00, 0x00, 0x00, 0x00, 0x00, 0x00, 0x10, 0x00, 0x00, 0x00, 0x00, 0x00, 0x00, 0x00,
      0x00, 0x00, 0x00, 0x00, 0x00, 0x00, 0x00, 0x00, 0x00, 0x00, 0x00, 0x00, 0x00, 0x00, 0x00, 0x00,
      0x00, 0x00, 0x00, 0x00, 0x00, 0x00, 0xf4, 0x24, 0x01, 0x00, 0x00, 0x00, 0x00, 0x00, 0x00, 0x00,
      0x00, 0x00, 0x00, 0x65, 0x53, 0xf1, 0x00, 0x00, 0x00, 0x00, 0x01, 0x02, 0x00, 0x00, 0x00, 0x00,
      0x00, 0x00, 0x00, 0x05]"

text \<open>A whitelist address in mixed case with spaces around it, and its 20 bytes.\<close>

definition example_address :: string where
  "example_address = '' 0xAbCdEf0123456789aBcDeF0123456789abcdef01 ''"

definition example_address_bytes :: bytes where
  "example_address_bytes =
     [0xab, 0xcd, 0xef, 0x01, 0x23, 0x45, 0x67, 0x89, 0xab, 0xcd, 0xef, 0x01, 0x23, 0x45, 0x67, 0x89,
      0xab, 0xcd, 0xef, 0x01]"

text \<open>A stand-in for \<open>base58.b58decode_check\<close> that returns 21 bytes, the first one \<open>0x41\<close>.\<close>

definition example_b58decode_check :: "string \<Rightarrow> error + bytes" where
  "example_b58decode_check s = Inr (0x41 # example_address_bytes)"

section \<open>Evaluating Keccak-256\<close>

text \<open>
  Rewrite rules that run the permutation on an explicit state. The bytes of the message are
  turned into lanes by the full simplifier, the 24 rounds are rewritten with the rules
  collected in \<open>keccak_eval\<close> alone, and the four output lanes are turned back into bytes.
\<close>

lemma replicate_numeral: "replicate (numeral n) x = x # replicate (pred_numeral n) x"
  by (simp add: numeral_eq_Suc)

lemma bits_be_numeral_width:
  "bits_be (numeral w) n acc = bits_be (pred_numeral w) (n div 2) (odd n # acc)"
  by (simp add: numeral_eq_Suc)

lemma bits_be_eval:
  "bits_be (numeral w) 0 acc = bits_be (pred_numeral w) 0 (False # acc)"
  "bits_be (numeral w) 1 acc = bits_be (pred_numeral w) 0 (True # acc)"
  "bits_be (numeral w) (numeral Num.One) acc = bits_be (pred_numeral w) 0 (True # acc)"
  "bits_be (numeral w) (numeral (Num.Bit0 k)) acc = bits_be (pred_numeral w) (numeral k) (False # acc)"
  "bits_be (numeral w) (numeral (Num.Bit1 k)) acc = bits_be (pred_numeral w) (numeral k) (True # acc)"
  by (simp_all add: bits_be_numeral_width)

lemma drop_take_eval:
  "drop (numeral v) (x # xs) = drop (pred_numeral v) xs"
  "take (numeral v) (x # xs) = x # take (pred_numeral v) xs"
  "drop 1 (x # xs) = xs"
  "take 1 (x # xs) = [x]"
  by (simp_all add: numeral_eq_Suc)

lemmas keccak_eval =
  keccak_f_def round_constants_def foldl.simps keccak_round_def theta_def theta_c.simps
  theta_d.simps theta_x.simps xor5_def rho_pi.simps chi.simps iota.simps rotl64_def
  lane_xor.simps lane_andn.simps bits_be_eval bits_be.simps(1)
  pred_numeral_simps BitM.simps drop_take_eval drop_0 take_0
  append.simps simp_thms not_True_eq_False not_False_eq_True

lemmas keccak_absorb =
  keccak256_def pad101_def zero_state_def zero_lane_def block_lanes_def lane_of_bytes_def
  bits_of_byte_def bits_be_numeral_width replicate_numeral upt_conv_Cons

lemmas keccak_squeeze = bytes_of_lane_def byte_of_bits_def upt_conv_Cons

text \<open>The published digests of the empty message and of \<open>"abc"\<close>.\<close>

lemma keccak256_empty:
  "keccak256 [] =
     [0xc5, 0xd2, 0x46, 0x01, 0x86, 0xf7, 0x23, 0x3c, 0x92, 0x7e, 0x7d, 0xb2, 0xdc, 0xc7, 0x03, 0xc0,
      0xe5, 0x00, 0xb6, 0x53, 0xca, 0x82, 0x27, 0x3b, 0x7b, 0xfa, 0xd8, 0x04, 0x5d, 0x85, 0xa4, 0x70]"
  apply (simp add: keccak_absorb)
  apply (simp only: keccak_eval)
  apply (simp add: keccak_squeeze)
  done

lemma keccak256_abc:
  "keccak256 [0x61, 0x62, 0x63] =
     [0x4e, 0x03, 0x65, 0x7a, 0xea, 0x45, 0xa9, 0x4f, 0xc7, 0xd4, 0x7b, 0xa8, 0x26, 0xc8, 0xd6, 0x67,
      0xc0, 0xd1, 0xe6, 0xe3, 0x3a, 0x64, 0xa0, 0x36, 0xec, 0x44, 0xf5, 0x8f, 0xa1, 0x2d, 0x6c, 0x45]"
  apply (simp add: keccak_absorb)
  apply (simp only: keccak_eval)
  apply (simp add: keccak_squeeze)
  done

text \<open>Every digest has 32 bytes.\<close>

lemma length_bytes_of_lane: "length (bytes_of_lane l) = 8"
  by (simp add: bytes_of_lane_def)

lemma length_squeeze: "length (squeeze s) = 32"
proof -
  obtain a0 a1 a2 a3 rest where "s = (a0, a1, a2, a3, rest)"
    by (cases s) auto
  then show ?thesis
    by (simp add: length_bytes_of_lane)
qed

lemma length_keccak256: "length (keccak256 m) = 32"
  by (simp add: keccak256_def Let_def length_squeeze)

section \<open>The combine rule\<close>

lemma combine_build_sorted: "combine_build a b = keccak256 (min a b @ max a b)"
  by (auto simp: combine_build_def solidity_keccak_b32_def min_def max_def)

lemma combine_verify_sorted: "combine_verify a b = keccak256 (min a b @ max a b)"
  by (auto simp: combine_verify_def solidity_keccak_b32_def min_def max_def)

lemma hash_pair_sorted: "hash_pair a b = keccak256 (min a b @ max a b)"
  by (auto simp: hash_pair_def min_def max_def)

lemma verify_step_sorted: "verify_step a b = keccak256 (min a b @ max a b)"
  by (auto simp: verify_step_def min_def max_def)

text \<open>
  C5. The combine operation of the tree builders and of the verifiers is
  \<open>keccak256 (min a b @ max a b)\<close> for the lexicographic order on the byte values, and so it
  is symmetric. This holds for \<open>hash_pair\<close> of the whitelist script, for the pair hashing
  inlined in \<open>MerkleTree._build_tree\<close> and for the step of \<open>MerkleTree.verify_proof\<close>.
\<close>

theorem combine_is_sorted_pair_hash:
  "hash_pair a b = keccak256 (min a b @ max a b) \<and> hash_pair a b = hash_pair b a \<and>
   combine_build a b = keccak256 (min a b @ max a b) \<and> combine_build a b = combine_build b a \<and>
   combine_verify a b = keccak256 (min a b @ max a b) \<and> combine_verify a b = combine_verify b a"
  by (simp add: hash_pair_sorted combine_build_sorted combine_verify_sorted min.commute max.commute)

section \<open>The empty tree\<close>

lemma py_index_Nil: "py_index [] i = Inl IndexError"
  by (simp add: py_index_def)

lemma merkle_tree_Nil: "merkle_tree [] = [[]]"
  by (simp add: merkle_tree_def merkle_tree_loop.simps)

text \<open>
  The batch \<open>MerkleTree\<close>, in both batch scripts, does what the specification asks of
  an empty leaf sequence: \<open>_build_tree\<close> returns \<open>[[]]\<close> without an error, and \<open>get_root\<close>,
  which tests \<open>self.tree\<close> and \<open>self.tree[-1]\<close>, returns 32 zero bytes.
\<close>

lemma batch_empty_tree_root:
  "MerkleTree_build_tree [] = [[]] \<and>
   get_root (MerkleTree_build_tree []) = replicate 32 0 \<and>
   length (get_root (MerkleTree_build_tree [])) = 32"
  by (simp add: MerkleTree_build_tree_def get_root_def)

text \<open>
  C6 on \<open>whitelist/generateWhitelistRootDeploy.py\<close>, at the empty leaf sequence.
  \<open>merkle_tree([])\<close> is \<open>[[]]\<close>, which is not an empty list, so the test \<open>if tree\<close> of
  \<open>merkle_root\<close> lets it through to \<open>tree[-1][0]\<close>, and that raises IndexError: no root is
  returned where the claim asks for the sentinel of 32 zero bytes.
\<close>

theorem merkle_root_empty_raises:
  "merkle_tree [] = [[]] \<and> merkle_root (merkle_tree []) = Inl IndexError"
  by (simp add: merkle_tree_Nil merkle_root_def py_index_def)

section \<open>The shape of the batch tree\<close>

lemma py_index_nat: "j < length xs \<Longrightarrow> py_index xs (int j) = Inr (xs ! j)"
  by (simp add: py_index_def)

lemma length_next_level: "length (next_level cur) = (length cur + 1) div 2"
  by (simp add: next_level_def range_step2_def)

lemma next_level_nth:
  assumes "k < (length cur + 1) div 2"
  shows "next_level cur ! k =
           (if 2 * k + 1 < length cur then combine_build (cur ! (2 * k)) (cur ! (2 * k + 1))
            else cur ! (2 * k))"
  using assms by (simp add: next_level_def range_step2_def)

lemma next_level_shorter: "1 < length cur \<Longrightarrow> length (next_level cur) < length cur"
  by (simp add: length_next_level)

lemma next_level_nonempty: "cur \<noteq> [] \<Longrightarrow> next_level cur \<noteq> []"
proof -
  assume "cur \<noteq> []"
  then have "0 < length cur" by simp
  then have "0 < length (next_level cur)" by (simp add: length_next_level)
  then show ?thesis by auto
qed

text \<open>Each layer of a tree is made from the one before it by \<open>step\<close>.\<close>

lemma successively_nth:
  "successively P xs \<Longrightarrow> Suc k < length xs \<Longrightarrow> P (xs ! k) (xs ! Suc k)"
proof (induction xs arbitrary: k)
  case Nil
  then show ?case by simp
next
  case (Cons x xs)
  show ?case
  proof (cases k)
    case 0
    with Cons.prems show ?thesis by (cases xs) auto
  next
    case (Suc j)
    with Cons.prems have "successively P xs" and "Suc j < length xs"
      by (auto simp: successively_Cons)
    with Cons.IH Suc show ?thesis by simp
  qed
qed

lemma successively_snoc:
  "xs \<noteq> [] \<Longrightarrow> successively P xs \<Longrightarrow> P (last xs) y \<Longrightarrow> successively P (xs @ [y])"
  by (simp add: successively_append_iff)

lemma build_loop_step:
  "1 < length current \<Longrightarrow>
     build_loop tree current = build_loop (tree @ [next_level current]) (next_level current)"
  by (subst build_loop.simps) simp

lemma build_loop_stop: "\<not> 1 < length current \<Longrightarrow> build_loop tree current = tree"
  by (subst build_loop.simps) simp

lemma build_loop_prefix: "take (length tree) (build_loop tree current) = tree"
proof (induction tree current rule: build_loop.induct)
  case (1 tree current)
  show ?case
  proof (cases "1 < length current")
    case True
    from "1.IH" [OF True]
    have "take (length tree) (take (length (tree @ [next_level current]))
            (build_loop (tree @ [next_level current]) (next_level current))) =
          take (length tree) (tree @ [next_level current])"
      by simp
    then show ?thesis
      by (simp add: build_loop_step [OF True] min_def)
  next
    case False
    then show ?thesis by (simp add: build_loop_stop)
  qed
qed

lemma build_loop_inv:
  "tree_inv tree \<Longrightarrow> last tree = current \<Longrightarrow>
     tree_inv (build_loop tree current) \<and> \<not> 1 < length (last (build_loop tree current))"
proof (induction tree current rule: build_loop.induct)
  case (1 tree current)
  show ?case
  proof (cases "1 < length current")
    case True
    from "1.prems" have ne: "tree \<noteq> []" by (simp add: tree_inv_def)
    then have "list_all (\<lambda>l. 1 < length l) tree =
                 list_all (\<lambda>l. 1 < length l) (butlast tree @ [last tree])"
      by simp
    with "1.prems" True have "list_all (\<lambda>l. 1 < length l) tree"
      by (simp add: tree_inv_def)
    with "1.prems" ne have "tree_inv (tree @ [next_level current])"
      by (simp add: tree_inv_def successively_snoc)
    then show ?thesis
      using "1.IH" [OF True] by (simp add: build_loop_step [OF True])
  next
    case False
    with "1.prems" show ?thesis by (simp add: build_loop_stop)
  qed
qed

lemma build_tree_inv:
  assumes "leaves \<noteq> []"
  shows "tree_inv (MerkleTree_build_tree leaves)"
    and "\<not> 1 < length (last (MerkleTree_build_tree leaves))"
    and "hd (MerkleTree_build_tree leaves) = leaves"
proof -
  have inv0: "tree_inv [leaves]" by (simp add: tree_inv_def)
  from build_loop_inv [OF inv0, of leaves] assms
  show "tree_inv (MerkleTree_build_tree leaves)"
    and "\<not> 1 < length (last (MerkleTree_build_tree leaves))"
    by (simp_all add: MerkleTree_build_tree_def)
  have "take (length [leaves]) (build_loop [leaves] leaves) = [leaves]"
    by (rule build_loop_prefix)
  then show "hd (MerkleTree_build_tree leaves) = leaves"
    using assms by (cases "build_loop [leaves] leaves") (simp_all add: MerkleTree_build_tree_def)
qed

lemma tree_inv_nonempty_layers:
  "successively (\<lambda>l l'. l' = next_level l) tree \<Longrightarrow> tree \<noteq> [] \<Longrightarrow> hd tree \<noteq> [] \<Longrightarrow>
     list_all (\<lambda>l. l \<noteq> []) tree"
proof (induction tree)
  case Nil
  then show ?case by simp
next
  case (Cons l rest)
  show ?case
  proof (cases rest)
    case Nil
    with Cons.prems show ?thesis by simp
  next
    case (Cons l' rest')
    with Cons.prems have "l' = next_level l" and "successively (\<lambda>l l'. l' = next_level l) rest"
      by auto
    with Cons.prems Cons.IH Cons show ?thesis
      by (simp add: next_level_nonempty)
  qed
qed

lemma next_level_32:
  assumes "list_all (\<lambda>x. length x = 32) cur"
  shows "list_all (\<lambda>x. length x = 32) (next_level cur)"
proof -
  have "length (next_level cur ! k) = 32" if "k < length (next_level cur)" for k
  proof -
    from that have k: "k < (length cur + 1) div 2" by (simp add: length_next_level)
    then have "2 * k < length cur" by linarith
    with assms have "length (cur ! (2 * k)) = 32" by (simp add: list_all_length)
    then show ?thesis
      by (simp add: next_level_nth [OF k] combine_build_sorted length_keccak256)
  qed
  then show ?thesis by (simp add: list_all_length)
qed

lemma tree_inv_32:
  "successively (\<lambda>l l'. l' = next_level l) tree \<Longrightarrow> tree \<noteq> [] \<Longrightarrow>
     list_all (\<lambda>x. length x = 32) (hd tree) \<Longrightarrow>
     list_all (list_all (\<lambda>x. length x = 32)) tree"
proof (induction tree)
  case Nil
  then show ?case by simp
next
  case (Cons l rest)
  show ?case
  proof (cases rest)
    case Nil
    with Cons.prems show ?thesis by simp
  next
    case (Cons l' rest')
    with Cons.prems have "l' = next_level l" and "successively (\<lambda>l l'. l' = next_level l) rest"
      by auto
    with Cons.prems Cons.IH Cons show ?thesis
      by (simp add: next_level_32)
  qed
qed

lemma tree_inv_shrinks:
  "successively (\<lambda>l l'. l' = next_level l) tree \<Longrightarrow>
     list_all (\<lambda>l. 1 < length l) (butlast tree) \<Longrightarrow>
     successively (\<lambda>l l'. length l' < length l) tree"
proof (induction tree)
  case Nil
  then show ?case by simp
next
  case (Cons l rest)
  show ?case
  proof (cases rest)
    case Nil
    then show ?thesis by simp
  next
    case (Cons l' rest')
    with Cons.prems have eq: "l' = next_level l"
      and s: "successively (\<lambda>l l'. l' = next_level l) rest"
      and b: "1 < length l"
      and bs: "list_all (\<lambda>l. 1 < length l) (butlast rest)"
      by auto
    from Cons.IH [OF s bs] eq b Cons show ?thesis
      by (simp add: next_level_shorter)
  qed
qed

text \<open>
  C10. For a non-empty list of 32-byte leaves, the tree of the batch \<open>MerkleTree\<close> has the
  leaves as layer 0, every layer is non-empty, every layer after the first is strictly
  shorter than the one before it, the last layer has exactly one node, and every node of
  every layer has 32 bytes.
\<close>

theorem batch_tree_shape:
  assumes "leaves \<noteq> []" and "list_all (\<lambda>x. length x = 32) leaves"
  shows "MerkleTree_build_tree leaves ! 0 = leaves \<and>
         list_all (\<lambda>l. l \<noteq> []) (MerkleTree_build_tree leaves) \<and>
         successively (\<lambda>l l'. length l' < length l) (MerkleTree_build_tree leaves) \<and>
         length (last (MerkleTree_build_tree leaves)) = 1 \<and>
         list_all (list_all (\<lambda>x. length x = 32)) (MerkleTree_build_tree leaves)"
proof -
  let ?T = "MerkleTree_build_tree leaves"
  note inv = build_tree_inv [OF assms(1)]
  from inv(1) have ne: "?T \<noteq> []"
    and succ: "successively (\<lambda>l l'. l' = next_level l) ?T"
    and big: "list_all (\<lambda>l. 1 < length l) (butlast ?T)"
    by (simp_all add: tree_inv_def)
  from ne inv(3) have layer0: "?T ! 0 = leaves" by (simp add: hd_conv_nth)
  from inv(3) assms(1) have "hd ?T \<noteq> []" by simp
  with succ ne have nonempty: "list_all (\<lambda>l. l \<noteq> []) ?T"
    by (rule tree_inv_nonempty_layers)
  from nonempty ne have "last ?T \<noteq> []" by (simp add: list_all_iff)
  with inv(2) have one: "length (last ?T) = 1"
    by (cases "last ?T") auto
  from succ big have shorter: "successively (\<lambda>l l'. length l' < length l) ?T"
    by (rule tree_inv_shrinks)
  from inv(3) assms(2) have "list_all (\<lambda>x. length x = 32) (hd ?T)" by simp
  with succ ne have "list_all (list_all (\<lambda>x. length x = 32)) ?T"
    by (rule tree_inv_32)
  with layer0 nonempty shorter one show ?thesis by simp
qed

theorem batch_tree_shape_witness:
  "[leaf_a, leaf_b, leaf_c] \<noteq> [] \<and>
   list_all (\<lambda>x. length x = 32) [leaf_a, leaf_b, leaf_c] \<and>
   MerkleTree_build_tree [leaf_a, leaf_b, leaf_c] ! 0 = [leaf_a, leaf_b, leaf_c] \<and>
   length (last (MerkleTree_build_tree [leaf_a, leaf_b, leaf_c])) = 1"
  using batch_tree_shape [of "[leaf_a, leaf_b, leaf_c]"]
  by (simp add: leaf_a_def leaf_b_def leaf_c_def)

section \<open>Proofs generated by the batch tree verify\<close>

lemma combine_verify_right: "combine_verify x y = combine_build x y"
  by (simp add: combine_verify_sorted combine_build_sorted)

lemma combine_verify_left: "combine_verify y x = combine_build x y"
  by (simp add: combine_verify_sorted combine_build_sorted min.commute max.commute)

text \<open>
  The loop of \<open>get_proof\<close> on a tree that satisfies the invariant, started at an index of
  the first layer: it returns a list, and folding the verifier's step over that list takes
  the node at the index to the root.
\<close>

lemma get_proof_loop_verifies:
  assumes "successively (\<lambda>l l'. l' = next_level l) tree" and "tree \<noteq> []"
    and "list_all (\<lambda>l. 1 < length l) (butlast tree)" and "length (last tree) = 1"
    and "i < length (hd tree)"
  shows "\<exists>pf. get_proof_loop (butlast tree) (int i) acc = Inr (acc @ pf) \<and>
              foldl combine_verify (hd tree ! i) pf = hd (last tree)"
  using assms
proof (induction tree arbitrary: i acc)
  case Nil
  then show ?case by simp
next
  case (Cons l rest)
  show ?case
  proof (cases rest)
    case Nil
    with Cons.prems have "length l = 1" and "i = 0" by auto
    then have "l ! i = hd l" by (cases l) auto
    with Nil show ?thesis by simp
  next
    case (Cons l' rest')
    with Cons.prems have l': "l' = next_level l"
      and s: "successively (\<lambda>l l'. l' = next_level l) rest"
      and big: "1 < length l"
      and bs: "list_all (\<lambda>l. 1 < length l) (butlast rest)"
      and one: "length (last rest) = 1"
      and i: "i < length l"
      by auto
    from Cons have ne: "rest \<noteq> []" and hd_rest: "hd rest = l'" by simp_all
    let ?j = "i div 2"
    from i have j: "?j < (length l + 1) div 2" by linarith
    with l' hd_rest have j': "?j < length (hd rest)" by (simp add: length_next_level)
    have IH: "\<exists>pf. get_proof_loop (butlast rest) (int ?j) acc' = Inr (acc' @ pf) \<and>
                foldl combine_verify (next_level l ! ?j) pf = hd (last rest)" for acc'
      using Cons.IH [OF s ne bs one j'] l' hd_rest by simp
    have div: "int i div 2 = int ?j" by simp
    show ?thesis
    proof (cases "even i")
      case True
      then have m: "int i mod 2 = 0" by presburger
      from True have two: "2 * ?j = i" by simp
      show ?thesis
      proof (cases "i + 1 < length l")
        case sib: True
        from next_level_nth [OF j] two sib
        have nth: "next_level l ! ?j = combine_build (l ! i) (l ! (i + 1))" by simp
        from py_index_nat [OF sib] have idx: "py_index l (int i + 1) = Inr (l ! (i + 1))"
          by (simp add: add.commute)
        from IH [of "acc @ [l ! (i + 1)]"] obtain pf where
          pf: "get_proof_loop (butlast rest) (int ?j) (acc @ [l ! (i + 1)]) =
                 Inr ((acc @ [l ! (i + 1)]) @ pf)"
            "foldl combine_verify (next_level l ! ?j) pf = hd (last rest)"
          by blast
        have "get_proof_loop (butlast (l # rest)) (int i) acc = Inr (acc @ (l ! (i + 1) # pf))"
          using m sib idx pf(1) div ne by simp
        moreover have "foldl combine_verify (hd (l # rest) ! i) (l ! (i + 1) # pf) =
                         hd (last (l # rest))"
          using pf(2) nth ne by (simp add: combine_verify_right)
        ultimately show ?thesis by blast
      next
        case nosib: False
        from next_level_nth [OF j] two nosib
        have nth: "next_level l ! ?j = l ! i" by simp
        from IH [of acc] obtain pf where
          pf: "get_proof_loop (butlast rest) (int ?j) acc = Inr (acc @ pf)"
            "foldl combine_verify (next_level l ! ?j) pf = hd (last rest)"
          by blast
        have "get_proof_loop (butlast (l # rest)) (int i) acc = Inr (acc @ pf)"
          using m nosib pf(1) div ne by simp
        moreover have "foldl combine_verify (hd (l # rest) ! i) pf = hd (last (l # rest))"
          using pf(2) nth ne by simp
        ultimately show ?thesis by blast
      qed
    next
      case False
      then have m: "int i mod 2 \<noteq> 0" by presburger
      from False have two: "2 * ?j + 1 = i" by presburger
      then have two': "2 * ?j = i - 1" and pos: "0 < i" by linarith+
      from next_level_nth [OF j] two i
      have "next_level l ! ?j = combine_build (l ! (2 * ?j)) (l ! (2 * ?j + 1))" by simp
      with two two' have nth: "next_level l ! ?j = combine_build (l ! (i - 1)) (l ! i)" by simp
      from i have "i - 1 < length l" by simp
      from py_index_nat [OF this] pos have idx: "py_index l (int i - 1) = Inr (l ! (i - 1))"
        by (simp add: of_nat_diff)
      from IH [of "acc @ [l ! (i - 1)]"] obtain pf where
        pf: "get_proof_loop (butlast rest) (int ?j) (acc @ [l ! (i - 1)]) =
               Inr ((acc @ [l ! (i - 1)]) @ pf)"
          "foldl combine_verify (next_level l ! ?j) pf = hd (last rest)"
        by blast
      have "get_proof_loop (butlast (l # rest)) (int i) acc = Inr (acc @ (l ! (i - 1) # pf))"
        using m idx pf(1) div ne by simp
      moreover have "foldl combine_verify (hd (l # rest) ! i) (l ! (i - 1) # pf) =
                       hd (last (l # rest))"
        using pf(2) nth ne by (simp add: combine_verify_left)
      ultimately show ?thesis by blast
    qed
  qed
qed

text \<open>
  For every non-empty sequence of leaves and every index in range, \<open>get_proof\<close> of the
  batch \<open>MerkleTree\<close> returns a proof and \<open>verify_proof\<close> accepts it for that leaf and the
  root of the tree.
\<close>

lemma batch_roundtrip:
  assumes "leaves \<noteq> []" and "i < length leaves"
  shows "\<exists>pf. get_proof (MerkleTree_build_tree leaves) (int i) = Inr pf \<and>
              verify_proof (leaves ! i) pf (get_root (MerkleTree_build_tree leaves))"
proof -
  let ?T = "MerkleTree_build_tree leaves"
  note inv = build_tree_inv [OF assms(1)]
  from inv(1) have ne: "?T \<noteq> []"
    and succ: "successively (\<lambda>l l'. l' = next_level l) ?T"
    and big: "list_all (\<lambda>l. 1 < length l) (butlast ?T)"
    by (simp_all add: tree_inv_def)
  have one: "length (last ?T) = 1"
  proof -
    from inv(3) assms(1) have "hd ?T \<noteq> []" by simp
    with succ ne have "list_all (\<lambda>l. l \<noteq> []) ?T" by (rule tree_inv_nonempty_layers)
    with ne have "last ?T \<noteq> []" by (simp add: list_all_iff)
    with inv(2) show ?thesis by (cases "last ?T") auto
  qed
  from assms(2) inv(3) have i: "i < length (hd ?T)" by simp
  from get_proof_loop_verifies [OF succ ne big one i, of "[]"] obtain pf where
    pf: "get_proof_loop (butlast ?T) (int i) [] = Inr pf"
      "foldl combine_verify (hd ?T ! i) pf = hd (last ?T)"
    by auto
  have "take (length ?T - 1) ?T = butlast ?T" by (simp add: butlast_conv_take)
  with pf(1) have "get_proof ?T (int i) = Inr pf" by (simp add: get_proof_def)
  moreover from one have "last ?T \<noteq> []" by auto
  with ne pf(2) inv(3) have "verify_proof (leaves ! i) pf (get_root ?T)"
    by (simp add: verify_proof_def get_root_def)
  ultimately show ?thesis by blast
qed

section \<open>Trees of three leaves\<close>

lemma layers_loop_step:
  "1 < length (last layers) \<Longrightarrow>
     layers_loop layers = layers_loop (layers @ [next_layer (last layers)])"
  by (subst layers_loop.simps) simp

lemma layers_loop_stop: "\<not> 1 < length (last layers) \<Longrightarrow> layers_loop layers = layers"
  by (subst layers_loop.simps) simp

lemma merkle_tree_loop_step:
  "1 < length (last tree) \<Longrightarrow>
     merkle_tree_loop tree = merkle_tree_loop (tree @ [deploy_next_layer (last tree)])"
  by (subst merkle_tree_loop.simps) simp

lemma merkle_tree_loop_stop: "\<not> 1 < length (last tree) \<Longrightarrow> merkle_tree_loop tree = tree"
  by (subst merkle_tree_loop.simps) simp

lemma next_level_3: "next_level [x, y, z] = [combine_build x y, z]"
  by (simp add: next_level_def range_step2_def upt_conv_Cons)

lemma next_level_2: "next_level [x, y] = [combine_build x y]"
  by (simp add: next_level_def range_step2_def upt_conv_Cons)

lemma next_layer_3: "next_layer [x, y, z] = [hash_pair x y, hash_pair z z]"
  by (simp add: next_layer_def range_step2_def upt_conv_Cons)

lemma next_layer_2: "next_layer [x, y] = [hash_pair x y]"
  by (simp add: next_layer_def range_step2_def upt_conv_Cons)

lemma MerkleTree_build_tree_3:
  "MerkleTree_build_tree [x, y, z] =
     [[x, y, z], [combine_build x y, z], [combine_build (combine_build x y) z]]"
  by (simp add: MerkleTree_build_tree_def build_loop_step build_loop_stop next_level_3 next_level_2)

lemma build_tree_3:
  "build_tree [x, y, z] =
     [[x, y, z], [hash_pair x y, hash_pair z z], [hash_pair (hash_pair x y) (hash_pair z z)]]"
  by (simp add: build_tree_def layers_loop_step layers_loop_stop next_layer_3 next_layer_2)

section \<open>The whitelist tree of three leaves\<close>

lemma keccak256_leaf_a_leaf_b: "keccak256 (leaf_a @ leaf_b) = digest_ab"
  apply (simp add: leaf_a_def leaf_b_def digest_ab_def keccak_absorb)
  apply (simp only: keccak_eval)
  apply (simp add: keccak_squeeze)
  done

lemma keccak256_leaf_c_leaf_c: "keccak256 (leaf_c @ leaf_c) = digest_cc"
  apply (simp add: leaf_c_def digest_cc_def keccak_absorb)
  apply (simp only: keccak_eval)
  apply (simp add: keccak_squeeze)
  done

lemma keccak256_digest_ab_digest_cc: "keccak256 (digest_ab @ digest_cc) = digest_ab_cc"
  apply (simp add: digest_ab_def digest_cc_def digest_ab_cc_def keccak_absorb)
  apply (simp only: keccak_eval)
  apply (simp add: keccak_squeeze)
  done

lemma keccak256_leaf_c_digest_ab: "keccak256 (leaf_c @ digest_ab) = digest_c_ab"
  apply (simp add: leaf_c_def digest_ab_def digest_c_ab_def keccak_absorb)
  apply (simp only: keccak_eval)
  apply (simp add: keccak_squeeze)
  done

lemma leaf_a_less_leaf_b: "leaf_a < leaf_b"
  by (simp add: leaf_a_def leaf_b_def replicate_numeral)

lemma digest_ab_less_digest_cc: "digest_ab < digest_cc"
  by (simp add: digest_ab_def digest_cc_def)

lemma leaf_c_less_digest_ab: "leaf_c < digest_ab"
  by (simp add: leaf_c_def digest_ab_def replicate_numeral)

lemma hash_pair_leaf_a_leaf_b: "hash_pair leaf_a leaf_b = digest_ab"
  by (simp add: hash_pair_def leaf_a_less_leaf_b keccak256_leaf_a_leaf_b)

lemma hash_pair_leaf_c_leaf_c: "hash_pair leaf_c leaf_c = digest_cc"
  by (simp add: hash_pair_def keccak256_leaf_c_leaf_c)

lemma hash_pair_digest_ab_digest_cc: "hash_pair digest_ab digest_cc = digest_ab_cc"
  by (simp add: hash_pair_def digest_ab_less_digest_cc keccak256_digest_ab_digest_cc)

lemma build_tree_abc:
  "build_tree [leaf_a, leaf_b, leaf_c] =
     [[leaf_a, leaf_b, leaf_c], [digest_ab, digest_cc], [digest_ab_cc]]"
  by (simp add: build_tree_3 hash_pair_leaf_a_leaf_b hash_pair_leaf_c_leaf_c
      hash_pair_digest_ab_digest_cc)

text \<open>
  C1 on \<open>whitelist/generateRoot.py\<close>, at the leaves \<open>[leaf_a, leaf_b, leaf_c]\<close> and index 2.
  \<open>build_tree\<close> pairs the third leaf with itself, \<open>proof\<close> appends no sibling for it at
  layer 0, and so the proof for index 2 is \<open>[digest_ab]\<close>; \<open>verify_sorted\<close> folds it to
  \<open>digest_c_ab\<close>, which is not the root \<open>digest_ab_cc\<close> of the tree: the proof is rejected.
\<close>

theorem whitelist_roundtrip_fails:
  "proof_of (build_tree [leaf_a, leaf_b, leaf_c]) 2 = Inr [digest_ab] \<and>
   hd (last (build_tree [leaf_a, leaf_b, leaf_c])) = digest_ab_cc \<and>
   foldl verify_step leaf_c [digest_ab] = digest_c_ab \<and>
   verify_sorted leaf_c [digest_ab] (hd (last (build_tree [leaf_a, leaf_b, leaf_c]))) = False"
  by (simp add: build_tree_abc proof_of_def py_index_def verify_sorted_def verify_step_def
      leaf_c_less_digest_ab keccak256_leaf_c_digest_ab digest_c_ab_def digest_ab_cc_def)

section \<open>The unpaired node of an odd layer\<close>

lemma next_layer_nth:
  assumes "k < (length cur + 1) div 2"
  shows "next_layer cur ! k =
           hash_pair (cur ! (2 * k)) (if 2 * k + 1 < length cur then cur ! (2 * k + 1) else cur ! (2 * k))"
  using assms by (simp add: next_layer_def range_step2_def)

lemma deploy_next_layer_nth:
  assumes "k < (length cur + 1) div 2"
  shows "deploy_next_layer cur ! k =
           (let left = cur ! (2 * k);
                right = (if 2 * k + 1 < length cur then cur ! (2 * k + 1) else cur ! (2 * k))
            in if left > right then keccak256 (right @ left) else keccak256 (left @ right))"
  using assms by (simp add: deploy_next_layer_def range_step2_def)

lemma odd_last_index:
  assumes "odd (length cur)"
  shows "(length cur + 1) div 2 - 1 < (length cur + 1) div 2"
    and "2 * ((length cur + 1) div 2 - 1) = length cur - 1"
    and "\<not> 2 * ((length cur + 1) div 2 - 1) + 1 < length cur"
    and "cur \<noteq> []"
proof -
  from assms obtain m where m: "length cur = 2 * m + 1" by (auto elim: oddE)
  then show "(length cur + 1) div 2 - 1 < (length cur + 1) div 2"
    and "2 * ((length cur + 1) div 2 - 1) = length cur - 1"
    and "\<not> 2 * ((length cur + 1) div 2 - 1) + 1 < length cur"
    by simp_all
  from m show "cur \<noteq> []" by auto
qed

lemma last_next_level_odd:
  assumes "odd (length cur)"
  shows "last (next_level cur) = last cur"
proof -
  note o = odd_last_index [OF assms]
  have "next_level cur \<noteq> []" using o(4) by (rule next_level_nonempty)
  then have "last (next_level cur) = next_level cur ! ((length cur + 1) div 2 - 1)"
    by (simp add: last_conv_nth length_next_level)
  also have "\<dots> = cur ! (length cur - 1)"
    using next_level_nth [OF o(1)] o(2) o(3) by simp
  also have "\<dots> = last cur" using o(4) by (simp add: last_conv_nth)
  finally show ?thesis .
qed

lemma last_next_layer_odd:
  assumes "odd (length cur)"
  shows "last (next_layer cur) = hash_pair (last cur) (last cur)"
proof -
  note o = odd_last_index [OF assms]
  have len: "length (next_layer cur) = (length cur + 1) div 2"
    by (simp add: next_layer_def range_step2_def)
  with o(1) have "next_layer cur \<noteq> []" by auto
  then have "last (next_layer cur) = next_layer cur ! ((length cur + 1) div 2 - 1)"
    by (simp add: last_conv_nth len)
  also have "\<dots> = hash_pair (cur ! (length cur - 1)) (cur ! (length cur - 1))"
    using next_layer_nth [OF o(1)] o(2) o(3) by simp
  also have "\<dots> = hash_pair (last cur) (last cur)" using o(4) by (simp add: last_conv_nth)
  finally show ?thesis .
qed

lemma last_deploy_next_layer_odd:
  assumes "odd (length cur)"
  shows "last (deploy_next_layer cur) = keccak256 (last cur @ last cur)"
proof -
  note o = odd_last_index [OF assms]
  have len: "length (deploy_next_layer cur) = (length cur + 1) div 2"
    by (simp add: deploy_next_layer_def range_step2_def)
  with o(1) have "deploy_next_layer cur \<noteq> []" by auto
  then have "last (deploy_next_layer cur) = deploy_next_layer cur ! ((length cur + 1) div 2 - 1)"
    by (simp add: last_conv_nth len)
  also have "\<dots> = keccak256 (cur ! (length cur - 1) @ cur ! (length cur - 1))"
    using deploy_next_layer_nth [OF o(1)] o(2) o(3) by (simp add: Let_def)
  also have "\<dots> = keccak256 (last cur @ last cur)" using o(4) by (simp add: last_conv_nth)
  finally show ?thesis .
qed

lemma layers_loop_successively:
  "layers \<noteq> [] \<Longrightarrow> successively (\<lambda>l l'. l' = next_layer l) layers \<Longrightarrow>
     successively (\<lambda>l l'. l' = next_layer l) (layers_loop layers)"
proof (induction layers rule: layers_loop.induct)
  case (1 layers)
  show ?case
  proof (cases "1 < length (last layers)")
    case True
    from "1.prems" have "successively (\<lambda>l l'. l' = next_layer l) (layers @ [next_layer (last layers)])"
      by (simp add: successively_snoc)
    with "1.IH" [OF True] show ?thesis by (simp add: layers_loop_step [OF True])
  next
    case False
    with "1.prems" show ?thesis by (simp add: layers_loop_stop)
  qed
qed

lemma merkle_tree_loop_successively:
  "tree \<noteq> [] \<Longrightarrow> successively (\<lambda>l l'. l' = deploy_next_layer l) tree \<Longrightarrow>
     successively (\<lambda>l l'. l' = deploy_next_layer l) (merkle_tree_loop tree)"
proof (induction tree rule: merkle_tree_loop.induct)
  case (1 tree)
  show ?case
  proof (cases "1 < length (last tree)")
    case True
    from "1.prems"
    have "successively (\<lambda>l l'. l' = deploy_next_layer l) (tree @ [deploy_next_layer (last tree)])"
      by (simp add: successively_snoc)
    with "1.IH" [OF True] show ?thesis by (simp add: merkle_tree_loop_step [OF True])
  next
    case False
    with "1.prems" show ?thesis by (simp add: merkle_tree_loop_stop)
  qed
qed

lemma batch_tree_successively:
  "successively (\<lambda>l l'. l' = next_level l) (MerkleTree_build_tree leaves)"
proof (cases "leaves = []")
  case True
  then show ?thesis by (simp add: MerkleTree_build_tree_def)
next
  case False
  from build_tree_inv(1) [OF False] show ?thesis by (simp add: tree_inv_def)
qed

text \<open>
  One pass of each builder on a layer of odd length. The batch \<open>MerkleTree\<close> promotes the
  trailing node unchanged; the two whitelist scripts hash it with a copy of itself. Every
  layer of a tree is made from the one before it by such a pass.
\<close>

lemma odd_node_of_each_builder:
  assumes "odd (length cur)"
  shows "last (next_level cur) = last cur \<and>
         last (next_layer cur) = hash_pair (last cur) (last cur) \<and>
         last (deploy_next_layer cur) = keccak256 (last cur @ last cur) \<and>
         successively (\<lambda>l l'. l' = next_level l) (MerkleTree_build_tree leaves) \<and>
         successively (\<lambda>l l'. l' = next_layer l) (build_tree leaves) \<and>
         successively (\<lambda>l l'. l' = deploy_next_layer l) (merkle_tree leaves)"
  using assms
  by (simp add: last_next_level_odd last_next_layer_odd last_deploy_next_layer_odd
      batch_tree_successively build_tree_def merkle_tree_def
      layers_loop_successively merkle_tree_loop_successively)

text \<open>
  C2 on \<open>whitelist/generateRoot.py\<close>, at the leaves \<open>[leaf_a, leaf_b, leaf_c]\<close>. In the tree
  that \<open>build_tree\<close> makes, the last node of layer 1 is the hash of the third leaf followed
  by itself, not the third leaf: the trailing node of the odd layer is not promoted
  unchanged, it is combined with a copy of itself. The batch \<open>MerkleTree\<close> on the same
  leaves keeps the third leaf as the last node of layer 1.
\<close>

theorem whitelist_pairs_odd_node_with_itself:
  "last (build_tree [leaf_a, leaf_b, leaf_c] ! 1) = keccak256 (leaf_c @ leaf_c) \<and>
   last (build_tree [leaf_a, leaf_b, leaf_c] ! 1) \<noteq> last (build_tree [leaf_a, leaf_b, leaf_c] ! 0) \<and>
   last (MerkleTree_build_tree [leaf_a, leaf_b, leaf_c] ! 1) = leaf_c"
  apply (simp add: build_tree_abc keccak256_leaf_c_leaf_c MerkleTree_build_tree_3)
  apply (simp add: digest_cc_def leaf_c_def replicate_numeral)
  done

section \<open>Proof requests outside the range of the leaves\<close>

lemma proof_loop_nonneg:
  "0 \<le> idx \<Longrightarrow> \<exists>pf. proof_loop layers idx acc = Inr pf"
proof (induction layers arbitrary: idx acc)
  case Nil
  then show ?case by simp
next
  case (Cons layer rest)
  from Cons.prems have sib: "0 \<le> idx XOR 1" by simp
  from Cons.prems have "0 \<le> idx div 2" by simp
  from Cons.IH [OF this] sib show ?case
    by (auto simp: Let_def py_index_def)
qed

lemma batch_tree_two_layers:
  assumes "2 \<le> length leaves"
  shows "\<exists>rest. take (length (MerkleTree_build_tree leaves) - 1) (MerkleTree_build_tree leaves) =
                leaves # rest"
proof -
  let ?T = "MerkleTree_build_tree leaves"
  from assms have ne: "leaves \<noteq> []" and big: "1 < length leaves" by auto
  have "take (length ([leaves] @ [next_level leaves]))
          (build_loop ([leaves] @ [next_level leaves]) (next_level leaves)) =
        [leaves] @ [next_level leaves]"
    by (rule build_loop_prefix)
  with ne big have t2: "take 2 ?T = [leaves, next_level leaves]"
    by (simp add: MerkleTree_build_tree_def build_loop_step [OF big] numeral_2_eq_2)
  then have "length (take 2 ?T) = 2" by simp
  then have len: "2 \<le> length ?T" by simp
  then obtain x y zs where T: "?T = x # y # zs"
    by (cases ?T; cases "tl ?T") auto
  with t2 have "x = leaves" by simp
  with T show ?thesis by (simp add: take_Cons')
qed

text \<open>
  C7, as the claim states it, fails on both implementations: neither compares the index
  with the number of leaves. On a tree of three leaves \<open>get_proof\<close> of the batch
  \<open>MerkleTree\<close> returns the empty proof for index 4, and \<open>proof\<close> of the whitelist script
  returns a proof of two nodes for index 3.
\<close>

theorem proof_out_of_range_returns:
  "get_proof (MerkleTree_build_tree [leaf_a, leaf_b, leaf_c]) 4 = Inr [] \<and>
   proof_of (build_tree [leaf_a, leaf_b, leaf_c]) 3 = Inr [leaf_c, digest_ab]"
  by (simp add: MerkleTree_build_tree_3 get_proof_def build_tree_abc proof_of_def py_index_def)

text \<open>
  C7, amended. \<open>get_proof\<close> of the batch \<open>MerkleTree\<close> fails with IndexError, returning no
  proof, when the tree has at least two leaves and the index is odd and greater than the
  number of leaves: the read \<open>curr[idx - 1]\<close> at level 0 is out of range. \<open>proof\<close> of the
  whitelist script does not fail for that index: it returns a list.
\<close>

theorem get_proof_odd_index_out_of_range:
  assumes "2 \<le> length leaves" and "idx mod 2 = 1" and "int (length leaves) < idx"
  shows "get_proof (MerkleTree_build_tree leaves) idx = Inl IndexError \<and>
         (\<exists>pf. proof_of (build_tree leaves) idx = Inr pf)"
proof -
  from batch_tree_two_layers [OF assms(1)] obtain rest where
    "take (length (MerkleTree_build_tree leaves) - 1) (MerkleTree_build_tree leaves) = leaves # rest"
    by blast
  with assms(2,3) have "get_proof (MerkleTree_build_tree leaves) idx = Inl IndexError"
    by (simp add: get_proof_def py_index_def)
  moreover from assms(3) have "0 \<le> idx" by simp
  then have "\<exists>pf. proof_of (build_tree leaves) idx = Inr pf"
    unfolding proof_of_def by (rule proof_loop_nonneg)
  ultimately show ?thesis by blast
qed

theorem get_proof_odd_index_out_of_range_witness:
  "2 \<le> length [leaf_a, leaf_b, leaf_c] \<and> (5 :: int) mod 2 = 1 \<and>
   int (length [leaf_a, leaf_b, leaf_c]) < 5 \<and>
   get_proof (MerkleTree_build_tree [leaf_a, leaf_b, leaf_c]) 5 = Inl IndexError"
  using get_proof_odd_index_out_of_range [of "[leaf_a, leaf_b, leaf_c]" 5]
  by simp

section \<open>Hexadecimal text\<close>

lemma hex_val_lt: "hex_val c = Some v \<Longrightarrow> v < 16"
  by (auto simp: hex_val_def Let_def split: if_splits)

lemma hex_val_hex_char: "v < 16 \<Longrightarrow> hex_val (hex_char v) = Some v"
  by (auto simp: hex_val_def hex_char_def Let_def)

lemma hex_char_hex_val_lower: "hex_val c = Some v \<Longrightarrow> hex_char v = lower_char c"
  by (auto simp: hex_val_def hex_char_def lower_char_def Let_def split: if_splits)

lemma hex_val_lower_char: "is_hex_digit c \<Longrightarrow> hex_val (lower_char c) = hex_val c"
  by (auto simp: is_hex_digit_def hex_val_def lower_char_def Let_def split: if_splits)

lemma hex_val_upper_char: "is_hex_digit c \<Longrightarrow> hex_val (upper_char c) = hex_val c"
  by (auto simp: is_hex_digit_def hex_val_def upper_char_def Let_def split: if_splits)

lemma lower_upper_lower: "is_hex_digit c \<Longrightarrow> lower_char (upper_char (lower_char c)) = lower_char c"
  by (auto simp: is_hex_digit_def hex_val_def upper_char_def lower_char_def Let_def split: if_splits)

lemma lower_lower: "lower_char (lower_char c) = lower_char c"
  by (auto simp: lower_char_def Let_def split: if_splits)

lemma is_hex_digit_lower: "is_hex_digit c \<Longrightarrow> is_hex_digit (lower_char c)"
  by (simp add: is_hex_digit_def hex_val_lower_char)

lemma is_hex_digit_upper: "is_hex_digit c \<Longrightarrow> is_hex_digit (upper_char c)"
  by (simp add: is_hex_digit_def hex_val_upper_char)

lemma decode_hex_cong:
  "map hex_val s = map hex_val t \<Longrightarrow> decode_hex s = decode_hex t"
proof (induction s arbitrary: t rule: decode_hex.induct)
  case 1
  then show ?case by simp
next
  case (2 c)
  then obtain d where "t = [d]" by (cases t) auto
  then show ?case by simp
next
  case (3 c d rest)
  then obtain c' d' rest' where t: "t = c' # d' # rest'"
    by (cases t; cases "tl t") auto
  with 3 show ?case
    by (auto split: option.splits)
qed

lemma decode_hex_append:
  "even (length s) \<Longrightarrow>
     decode_hex (s @ t) =
       (case decode_hex s of
          None \<Rightarrow> None
        | Some a \<Rightarrow> (case decode_hex t of None \<Rightarrow> None | Some b \<Rightarrow> Some (a @ b)))"
proof (induction s rule: decode_hex.induct)
  case 1
  then show ?case by (simp split: option.splits)
next
  case (2 c)
  then show ?case by simp
next
  case (3 c d rest)
  then show ?case by (simp split: option.splits)
qed

lemma length_decode_hex: "decode_hex s = Some bs \<Longrightarrow> length s = 2 * length bs"
proof (induction s arbitrary: bs rule: decode_hex.induct)
  case 1
  then show ?case by simp
next
  case (2 c)
  then show ?case by simp
next
  case (3 c d rest)
  then show ?case by (auto split: option.splits)
qed

lemma decode_hex_total:
  "even (length s) \<Longrightarrow> list_all is_hex_digit s \<Longrightarrow> \<exists>bs. decode_hex s = Some bs"
proof (induction s rule: decode_hex.induct)
  case 1
  then show ?case by simp
next
  case (2 c)
  then show ?case by simp
next
  case (3 c d rest)
  from "3.prems" obtain h l where hl: "hex_val c = Some h" "hex_val d = Some l"
    by (auto simp: is_hex_digit_def)
  from "3.prems" have "even (length rest)" and "list_all is_hex_digit rest"
    by simp_all
  with "3.IH" [OF hl] obtain bs where "decode_hex rest = Some bs"
    by auto
  with hl show ?case by simp
qed

lemma length_fixed_hex: "length (fixed_hex w n) = w"
  by (induction w arbitrary: n) simp_all

lemma hex_char_0: "hex_char 0 = CHR ''0''"
  by (simp add: hex_char_def char_of_def bit_0)

lemma fixed_hex_zero: "fixed_hex w 0 = replicate w (CHR ''0'')"
  by (induction w) (simp_all add: hex_char_0 replicate_append_same)

lemma length_hex_of_nat: "0 < w \<Longrightarrow> n < 16 ^ w \<Longrightarrow> length (hex_of_nat n) \<le> w"
proof (induction w arbitrary: n)
  case 0
  then show ?case by simp
next
  case (Suc w)
  show ?case
  proof (cases "n < 16")
    case True
    then show ?thesis by (subst hex_of_nat.simps) simp
  next
    case False
    with Suc.prems have w: "0 < w" by (cases w) auto
    from Suc.prems have "n div 16 < 16 ^ w"
      by (simp add: less_mult_imp_div_less mult.commute)
    from Suc.IH [OF w this] False show ?thesis
      by (subst hex_of_nat.simps) simp
  qed
qed

lemma zfill_hex_of_nat: "0 < w \<Longrightarrow> n < 16 ^ w \<Longrightarrow> zfill w (hex_of_nat n) = fixed_hex w n"
proof (induction w arbitrary: n)
  case 0
  then show ?case by simp
next
  case (Suc w)
  show ?case
  proof (cases "n < 16")
    case True
    then have "n div 16 = 0" by simp
    with True show ?thesis
      by (subst hex_of_nat.simps) (simp add: zfill_def fixed_hex_zero)
  next
    case False
    with Suc.prems have w: "0 < w" by (cases w) auto
    from Suc.prems have lt: "n div 16 < 16 ^ w"
      by (simp add: less_mult_imp_div_less mult.commute)
    from length_hex_of_nat [OF w lt] have "Suc w - Suc (length (hex_of_nat (n div 16))) = w - length (hex_of_nat (n div 16))"
      by simp
    with Suc.IH [OF w lt] False show ?thesis
      by (subst hex_of_nat.simps) (simp add: zfill_def)
  qed
qed

lemma byte_of_nibbles:
  "16 * (of_nat (n div 16 mod 16) :: byte) + of_nat (n mod 16) = of_nat n"
proof -
  have "16 * (n div 16 mod 16) + n mod 16 = n mod 256"
    using mod_mult2_eq [of n 16 16] by simp
  then have "(of_nat (16 * (n div 16 mod 16) + n mod 16) :: byte) = of_nat n"
    by (simp only: word_of_nat_eq_iff) (simp add: take_bit_eq_mod)
  then show ?thesis
    by simp
qed

lemma decode_fixed_hex: "decode_hex (fixed_hex (2 * w) n) = Some (uint_be w n)"
proof (induction w arbitrary: n)
  case 0
  then show ?case by simp
next
  case (Suc w)
  have "n div 16 div 16 = n div 256" by (simp add: div_mult2_eq)
  then have "fixed_hex (2 * Suc w) n =
          fixed_hex (2 * w) (n div 256) @ [hex_char (n div 16 mod 16), hex_char (n mod 16)]"
    by simp
  then show ?case
    by (simp add: decode_hex_append length_fixed_hex Suc.IH hex_val_hex_char byte_of_nibbles)
qed

lemma length_uint_be: "length (uint_be w n) = w"
  by (induction w arbitrary: n) simp_all

lemma be_value_snoc: "be_value (bs @ [b]) = 256 * be_value bs + unat b"
  by (simp add: be_value_def)

lemma be_value_uint_be: "be_value (uint_be w n) = n mod 256 ^ w"
proof (induction w arbitrary: n)
  case 0
  then show ?case by (simp add: be_value_def)
next
  case (Suc w)
  have "unat (of_nat n :: byte) = n mod 256"
    by (simp add: unat_of_nat)
  then show ?case
    using mod_mult2_eq [of n 256 "256 ^ w"] by (simp add: be_value_snoc Suc.IH)
qed


section \<open>Checksum addresses\<close>

text \<open>
  The casing of \<open>to_checksum_address\<close> changes neither the value of a digit nor its lower
  case, so a checksum address is accepted by \<open>is_checksum_address\<close> and spells the bytes
  of the address it was made from.
\<close>

lemma length_nibbles: "length (nibbles bs) = 2 * length bs"
  by (induction bs) (simp_all add: nibbles_def)

lemma lower_upper: "is_hex_digit c \<Longrightarrow> lower_char (upper_char c) = lower_char c"
  by (auto simp: is_hex_digit_def hex_val_def upper_char_def lower_char_def Let_def split: if_splits)

lemma map_case_zip:
  "length body \<le> length ns \<Longrightarrow> \<forall>c\<in>set body. g (upper_char c) = g c \<Longrightarrow>
     map g (map (\<lambda>(c, h). if 7 < h then upper_char c else c) (zip body ns)) = map g body"
proof (induction body arbitrary: ns)
  case Nil
  then show ?case by simp
next
  case (Cons c body)
  then obtain h ns' where "ns = h # ns'" by (cases ns) auto
  with Cons show ?case by simp
qed

lemma checksum_case_map:
  assumes "length body \<le> 64" and "\<forall>c\<in>set body. g (upper_char c) = g c"
  shows "map g (checksum_case body) = map g body"
  unfolding checksum_case_def
  using assms by (intro map_case_zip) (simp_all add: length_nibbles length_keccak256)

lemma length_checksum_case: "length body \<le> 64 \<Longrightarrow> length (checksum_case body) = length body"
  by (simp add: checksum_case_def length_nibbles length_keccak256)

lemma remove_0x_prefix_0x: "remove_0x_prefix (CHR ''0'' # CHR ''x'' # s) = s"
  by (simp add: remove_0x_prefix_def)

lemma is_hex_address_0x:
  "is_hex_address (CHR ''0'' # CHR ''x'' # s) = (length s = 40 \<and> list_all is_hex_digit s)"
  by (simp only: is_hex_address_def remove_0x_prefix_0x)

lemma to_checksum_address_hex:
  assumes "is_hex_address v"
  shows "to_checksum_address v =
           Inr (''0x'' @ checksum_case (map lower_char (remove_0x_prefix v)))"
proof -
  from assms have "length (remove_0x_prefix v) = 40" and "list_all is_hex_digit (remove_0x_prefix v)"
    by (simp_all add: is_hex_address_def)
  then have "is_hex_address (''0x'' @ map lower_char (remove_0x_prefix v))"
    by (simp add: is_hex_address_0x list_all_iff is_hex_digit_lower)
  then show ?thesis
    by (simp add: to_checksum_address_def to_normalized_address_def Let_def)
qed

lemma checksum_body:
  assumes "length r = 40" and "list_all is_hex_digit r"
  defines "body \<equiv> checksum_case (map lower_char r)"
  shows "length body = 40" and "list_all is_hex_digit body"
    and "map lower_char body = map lower_char r"
    and "map hex_val body = map hex_val r"
proof -
  let ?l = "map lower_char r"
  have len: "length ?l \<le> 64" using assms by simp
  have hex: "list_all is_hex_digit ?l"
    using assms by (simp add: list_all_iff is_hex_digit_lower)
  show "length body = 40"
    using assms by (simp add: length_checksum_case)
  have "map is_hex_digit body = map is_hex_digit ?l"
    unfolding body_def using len hex
    by (intro checksum_case_map) (simp_all add: list_all_iff is_hex_digit_def hex_val_upper_char)
  moreover have "list_all (\<lambda>b. b) (map is_hex_digit ?l)"
    using hex by (simp add: list_all_iff)
  ultimately have "list_all (\<lambda>b. b) (map is_hex_digit body)"
    by simp
  then show "list_all is_hex_digit body"
    by (simp add: list_all_iff)
  have "map lower_char body = map lower_char ?l"
    unfolding body_def using len hex
    by (intro checksum_case_map) (simp_all add: list_all_iff lower_upper)
  then show "map lower_char body = map lower_char r"
    by (simp add: lower_lower)
  have "map hex_val body = map hex_val ?l"
    unfolding body_def using len hex
    by (intro checksum_case_map) (simp_all add: list_all_iff hex_val_upper_char)
  also have "\<dots> = map hex_val r"
    using assms by (simp add: list_all_iff hex_val_lower_char)
  finally show "map hex_val body = map hex_val r" .
qed


section \<open>The bytes that \<open>calculate_tx_hash\<close> hashes\<close>

lemma address_bytes_hex:
  assumes "is_hex_address v"
  shows "decode_hex (remove_0x_prefix v) = Some (address_bytes v)"
    and "length (address_bytes v) = 20"
proof -
  from assms have len: "length (remove_0x_prefix v) = 40"
    and hex: "list_all is_hex_digit (remove_0x_prefix v)"
    by (simp_all add: is_hex_address_def)
  from len have "even (length (remove_0x_prefix v))" by simp
  from decode_hex_total [OF this hex] obtain bs where bs: "decode_hex (remove_0x_prefix v) = Some bs"
    by auto
  then show "decode_hex (remove_0x_prefix v) = Some (address_bytes v)"
    by (simp add: address_bytes_def)
  from length_decode_hex [OF bs] len bs show "length (address_bytes v) = 20"
    by (simp add: address_bytes_def)
qed

lemma encode_address:
  assumes hv: "is_hex_address v"
  defines "body \<equiv> checksum_case (map lower_char (remove_0x_prefix v))"
  shows "to_checksum_address v = Inr (''0x'' @ body)"
    and "hex_encode_abi_type (AbiAddress (''0x'' @ body)) = Inr body"
    and "length body = 40"
    and "decode_hex body = Some (address_bytes v)"
proof -
  from hv have len: "length (remove_0x_prefix v) = 40"
    and hex: "list_all is_hex_digit (remove_0x_prefix v)"
    by (simp_all add: is_hex_address_def)
  note b = checksum_body [OF len hex, folded body_def]
  show cs: "to_checksum_address v = Inr (''0x'' @ body)"
    unfolding body_def using hv by (rule to_checksum_address_hex)
  show "length body = 40" by (rule b(1))
  have addr: "is_hex_address (''0x'' @ body)"
    using b(1,2) by (simp add: is_hex_address_0x)
  have "checksum_case (map lower_char (remove_0x_prefix (''0x'' @ body))) = body"
    using b(3) by (simp add: remove_0x_prefix_0x body_def)
  with to_checksum_address_hex [OF addr] have "is_checksum_address (''0x'' @ body)"
    using addr by (simp add: is_checksum_address_def)
  then show "hex_encode_abi_type (AbiAddress (''0x'' @ body)) = Inr body"
    using b(1) by (simp add: remove_0x_prefix_0x zfill_def)
  from decode_hex_cong [OF b(4)] address_bytes_hex(1) [OF hv]
  show "decode_hex body = Some (address_bytes v)"
    by simp
qed

lemma sixteen_power: "(16::nat) ^ (2 * w) = 2 ^ (8 * w)"
proof -
  have "(16::nat) ^ (2 * w) = (2 ^ 4) ^ (2 * w)" by simp
  also have "\<dots> = 2 ^ (4 * (2 * w))" by (rule power_mult [symmetric])
  finally show ?thesis by simp
qed

lemma encode_uint:
  assumes "in_uint bits v" and "bits = 8 * w" and "0 < w"
  shows "hex_encode_abi_type (AbiUint bits v) = Inr (fixed_hex (2 * w) (nat v))"
proof -
  from assms have "0 \<le> v" and "v < 2 ^ (8 * w)"
    by (simp_all add: in_uint_def)
  then have "nat v < 2 ^ (8 * w)"
    by (simp add: nat_less_iff)
  then have "nat v < 16 ^ (2 * w)"
    by (simp only: sixteen_power)
  moreover from assms have "0 < 2 * w" by simp
  ultimately have "zfill (2 * w) (hex_of_nat (nat v)) = fixed_hex (2 * w) (nat v)"
    by (intro zfill_hex_of_nat)
  moreover from assms have "bits div 4 = 2 * w" by simp
  ultimately show ?thesis
    using \<open>0 \<le> v\<close> by simp
qed

lemma encode_uint_widths:
  "in_uint 256 v \<Longrightarrow> hex_encode_abi_type (AbiUint 256 v) = Inr (fixed_hex 64 (nat v))"
  "in_uint 64 v \<Longrightarrow> hex_encode_abi_type (AbiUint 64 v) = Inr (fixed_hex 16 (nat v))"
  "in_uint 48 v \<Longrightarrow> hex_encode_abi_type (AbiUint 48 v) = Inr (fixed_hex 12 (nat v))"
  "in_uint 32 v \<Longrightarrow> hex_encode_abi_type (AbiUint 32 v) = Inr (fixed_hex 8 (nat v))"
  "in_uint 8 v \<Longrightarrow> hex_encode_abi_type (AbiUint 8 v) = Inr (fixed_hex 2 (nat v))"
proof -
  show "hex_encode_abi_type (AbiUint 256 v) = Inr (fixed_hex 64 (nat v))" if "in_uint 256 v"
  proof -
    have "(256::nat) = 8 * 32" and "0 < (32::nat)" and w: "(2::nat) * 32 = 64"
      by simp_all
    from encode_uint [OF that this(1,2)] show ?thesis
      by (simp only: w)
  qed
  show "hex_encode_abi_type (AbiUint 64 v) = Inr (fixed_hex 16 (nat v))" if "in_uint 64 v"
  proof -
    have "(64::nat) = 8 * 8" and "0 < (8::nat)" and w: "(2::nat) * 8 = 16"
      by simp_all
    from encode_uint [OF that this(1,2)] show ?thesis
      by (simp only: w)
  qed
  show "hex_encode_abi_type (AbiUint 48 v) = Inr (fixed_hex 12 (nat v))" if "in_uint 48 v"
  proof -
    have "(48::nat) = 8 * 6" and "0 < (6::nat)" and w: "(2::nat) * 6 = 12"
      by simp_all
    from encode_uint [OF that this(1,2)] show ?thesis
      by (simp only: w)
  qed
  show "hex_encode_abi_type (AbiUint 32 v) = Inr (fixed_hex 8 (nat v))" if "in_uint 32 v"
  proof -
    have "(32::nat) = 8 * 4" and "0 < (4::nat)" and w: "(2::nat) * 4 = 8"
      by simp_all
    from encode_uint [OF that this(1,2)] show ?thesis
      by (simp only: w)
  qed
  show "hex_encode_abi_type (AbiUint 8 v) = Inr (fixed_hex 2 (nat v))" if "in_uint 8 v"
  proof -
    have "(8::nat) = 8 * 1" and "0 < (1::nat)" and w: "(2::nat) * 1 = 2"
      by simp_all
    from encode_uint [OF that this(1,2)] show ?thesis
      by (simp only: w)
  qed
qed

lemma decode_fixed_hex_widths:
  "decode_hex (fixed_hex 64 n) = Some (uint_be 32 n)"
  "decode_hex (fixed_hex 16 n) = Some (uint_be 8 n)"
  "decode_hex (fixed_hex 12 n) = Some (uint_be 6 n)"
  "decode_hex (fixed_hex 8 n) = Some (uint_be 4 n)"
  "decode_hex (fixed_hex 2 n) = Some (uint_be 1 n)"
proof -
  show "decode_hex (fixed_hex 64 n) = Some (uint_be 32 n)"
  proof -
    have w: "(2::nat) * 32 = 64" by simp
    from decode_fixed_hex [of 32 n] show ?thesis
      by (simp only: w)
  qed
  show "decode_hex (fixed_hex 16 n) = Some (uint_be 8 n)"
  proof -
    have w: "(2::nat) * 8 = 16" by simp
    from decode_fixed_hex [of 8 n] show ?thesis
      by (simp only: w)
  qed
  show "decode_hex (fixed_hex 12 n) = Some (uint_be 6 n)"
  proof -
    have w: "(2::nat) * 6 = 12" by simp
    from decode_fixed_hex [of 6 n] show ?thesis
      by (simp only: w)
  qed
  show "decode_hex (fixed_hex 8 n) = Some (uint_be 4 n)"
  proof -
    have w: "(2::nat) * 4 = 8" by simp
    from decode_fixed_hex [of 4 n] show ?thesis
      by (simp only: w)
  qed
  show "decode_hex (fixed_hex 2 n) = Some (uint_be 1 n)"
  proof -
    have w: "(2::nat) * 1 = 2" by simp
    from decode_fixed_hex [of 1 n] show ?thesis
      by (simp only: w)
  qed
qed

lemma decode_hex_chain:
  assumes "decode_hex a = Some A" and "length a = 40"
    and "decode_hex b = Some B" and "length b = 40"
  shows "decode_hex (a @ b @ fixed_hex 64 n1 @ fixed_hex 16 n2 @ fixed_hex 12 n3 @
                     fixed_hex 8 n4 @ fixed_hex 2 n5 @ fixed_hex 16 n6) =
         Some (A @ B @ uint_be 32 n1 @ uint_be 8 n2 @ uint_be 6 n3 @ uint_be 4 n4 @
               uint_be 1 n5 @ uint_be 8 n6)"
  using assms
  by (simp add: decode_hex_append length_fixed_hex decode_fixed_hex_widths)

lemma calculate_tx_hash_packed:
  assumes "transfer_record tx"
  shows "calculate_tx_hash tx = Inr (keccak256 (packed_transfer tx))"
proof -
  let ?f = "checksum_case (map lower_char (remove_0x_prefix (from_address tx)))"
  let ?t = "checksum_case (map lower_char (remove_0x_prefix (to_address tx)))"
  from assms have hf: "is_hex_address (from_address tx)" and ht: "is_hex_address (to_address tx)"
    and u: "in_uint 256 (amount tx)" "in_uint 64 (nonce tx)" "in_uint 48 (timestamp tx)"
      "in_uint 32 (recipient_count tx)" "in_uint 8 (tx_type tx)" "in_uint 64 (batch_salt tx)"
    by (simp_all add: transfer_record_def)
  note f = encode_address [OF hf]
  note t = encode_address [OF ht]
  note e = encode_uint_widths(1) [OF u(1)] encode_uint_widths(2) [OF u(2)]
    encode_uint_widths(3) [OF u(3)] encode_uint_widths(4) [OF u(4)]
    encode_uint_widths(5) [OF u(5)] encode_uint_widths(2) [OF u(6)]
  let ?h = "?f @ ?t @ fixed_hex 64 (nat (amount tx)) @ fixed_hex 16 (nat (nonce tx)) @
            fixed_hex 12 (nat (timestamp tx)) @ fixed_hex 8 (nat (recipient_count tx)) @
            fixed_hex 2 (nat (tx_type tx)) @ fixed_hex 16 (nat (batch_salt tx))"
  have enc: "hex_encode_all
               [AbiAddress (''0x'' @ ?f), AbiAddress (''0x'' @ ?t), AbiUint 256 (amount tx),
                AbiUint 64 (nonce tx), AbiUint 48 (timestamp tx),
                AbiUint 32 (recipient_count tx), AbiUint 8 (tx_type tx),
                AbiUint 64 (batch_salt tx)] = Inr ?h"
    by (simp only: hex_encode_all.simps f(2) t(2) e sum.case append_Nil2)
  have "length ?h = 198"
    by (simp add: f(3) t(3) length_fixed_hex)
  then have even: "odd (length ?h) = False"
    by simp
  have dec: "decode_hex ?h = Some (packed_transfer tx)"
    unfolding packed_transfer_def
    using f(4) f(3) t(4) t(3) by (rule decode_hex_chain)
  have "keccak_hexstr ?h = Inr (keccak256 (packed_transfer tx))"
    by (simp only: keccak_hexstr_def even if_False dec option.case)
  then show ?thesis
    by (simp only: calculate_tx_hash_def f(1) t(1) sum.case solidity_keccak_def enc)
qed

lemma length_packed_transfer:
  assumes "transfer_record tx"
  shows "length (packed_transfer tx) = 99"
proof -
  from assms have "is_hex_address (from_address tx)" and "is_hex_address (to_address tx)"
    by (simp_all add: transfer_record_def)
  then show ?thesis
    by (simp add: packed_transfer_def address_bytes_hex(2) length_uint_be)
qed

lemma ensure_uint_bounds_ok:
  "in_uint 64 n \<Longrightarrow> in_uint 48 t \<Longrightarrow> in_uint 32 r \<Longrightarrow> ensure_uint_bounds n t r = Inr ()"
  by (simp add: ensure_uint_bounds_def in_uint_def)

lemma calculate_tx_hash_deploy_packed:
  assumes "transfer_record tx"
  shows "calculate_tx_hash_deploy tx = Inr (keccak256 (packed_transfer tx))"
proof -
  from assms have "ensure_uint_bounds (nonce tx) (timestamp tx) (recipient_count tx) = Inr ()"
    by (simp add: transfer_record_def ensure_uint_bounds_ok)
  then show ?thesis
    by (simp add: calculate_tx_hash_deploy_def calculate_tx_hash_packed [OF assms])
qed


text \<open>
  The representation \<open>uint_be\<close> is big-endian: read back with \<open>be_value\<close> it gives the
  number, and it has the width asked for (\<open>length_uint_be\<close>, \<open>be_value_uint_be\<close> above).
\<close>

section \<open>Tables for the concrete runs\<close>

lemma hex_val_table:
  "hex_val CHR ''0'' = Some 0" "hex_val CHR ''1'' = Some 1" "hex_val CHR ''2'' = Some 2"
  "hex_val CHR ''3'' = Some 3" "hex_val CHR ''4'' = Some 4" "hex_val CHR ''5'' = Some 5"
  "hex_val CHR ''6'' = Some 6" "hex_val CHR ''7'' = Some 7" "hex_val CHR ''8'' = Some 8"
  "hex_val CHR ''9'' = Some 9" "hex_val CHR ''a'' = Some 10" "hex_val CHR ''b'' = Some 11"
  "hex_val CHR ''c'' = Some 12" "hex_val CHR ''d'' = Some 13" "hex_val CHR ''e'' = Some 14"
  "hex_val CHR ''f'' = Some 15" "hex_val CHR ''A'' = Some 10" "hex_val CHR ''B'' = Some 11"
  "hex_val CHR ''C'' = Some 12" "hex_val CHR ''D'' = Some 13" "hex_val CHR ''E'' = Some 14"
  "hex_val CHR ''F'' = Some 15"
  by (simp_all add: hex_val_def)

lemma hex_char_table:
  "hex_char 0 = CHR ''0''" "hex_char 1 = CHR ''1''" "hex_char 2 = CHR ''2''"
  "hex_char 3 = CHR ''3''" "hex_char 4 = CHR ''4''" "hex_char 5 = CHR ''5''"
  "hex_char 6 = CHR ''6''" "hex_char 7 = CHR ''7''" "hex_char 8 = CHR ''8''"
  "hex_char 9 = CHR ''9''" "hex_char 10 = CHR ''a''" "hex_char 11 = CHR ''b''"
  "hex_char 12 = CHR ''c''" "hex_char 13 = CHR ''d''" "hex_char 14 = CHR ''e''"
  "hex_char 15 = CHR ''f''" "hex_char (Suc 0) = CHR ''1''"
  by (simp_all add: hex_char_def char_of_def bit_0)

lemma lower_char_table:
  "lower_char CHR ''0'' = CHR ''0''" "lower_char CHR ''1'' = CHR ''1''"
  "lower_char CHR ''2'' = CHR ''2''" "lower_char CHR ''3'' = CHR ''3''"
  "lower_char CHR ''4'' = CHR ''4''" "lower_char CHR ''5'' = CHR ''5''"
  "lower_char CHR ''6'' = CHR ''6''" "lower_char CHR ''7'' = CHR ''7''"
  "lower_char CHR ''8'' = CHR ''8''" "lower_char CHR ''9'' = CHR ''9''"
  "lower_char CHR ''a'' = CHR ''a''" "lower_char CHR ''b'' = CHR ''b''"
  "lower_char CHR ''c'' = CHR ''c''" "lower_char CHR ''d'' = CHR ''d''"
  "lower_char CHR ''e'' = CHR ''e''" "lower_char CHR ''f'' = CHR ''f''"
  "lower_char CHR ''x'' = CHR ''x''" "lower_char CHR ''A'' = CHR ''a''"
  "lower_char CHR ''B'' = CHR ''b''" "lower_char CHR ''C'' = CHR ''c''"
  "lower_char CHR ''D'' = CHR ''d''" "lower_char CHR ''E'' = CHR ''e''"
  "lower_char CHR ''F'' = CHR ''f''"
  by (simp_all add: lower_char_def char_of_def bit_0)


lemma is_hex_address_example:
  "is_hex_address ''0x1234567890123456789012345678901234567890''"
  "is_hex_address ''0x0000000000000000000000000000000000000001''"
  by (simp_all add: is_hex_address_def remove_0x_prefix_def is_hex_digit_def hex_val_table)

lemma transfer_record_example: "transfer_record example_tx" "transfer_record example_tx_deploy"
  by (simp_all add: transfer_record_def example_tx_def example_tx_deploy_def
      is_hex_address_example in_uint_def)

lemma uint_be_numeral:
  "uint_be (numeral k) n = uint_be (pred_numeral k) (n div 256) @ [of_nat n]"
proof -
  have "uint_be (Suc (pred_numeral k)) n = uint_be (pred_numeral k) (n div 256) @ [of_nat n]"
    by (rule uint_be.simps)
  then show ?thesis
    by (simp only: numeral_eq_Suc [symmetric])
qed

lemma uint_be_1: "uint_be 1 n = [of_nat n]"
  by simp

lemma packed_transfer_example: "packed_transfer example_tx = example_packed"
  by (simp add: packed_transfer_def example_tx_def example_packed_def address_bytes_def
      remove_0x_prefix_def hex_val_table uint_be_numeral)


section \<open>The transfer leaf\<close>

text \<open>
  C4. Changing \<open>batch_id\<close> and nothing else does not change what \<open>calculate_tx_hash\<close>
  returns, in either batch script: the field is not read. This covers the result in full,
  the digest or the error. A digest that is returned has 32 bytes.
\<close>

theorem batch_id_not_hashed:
  "calculate_tx_hash (tx\<lparr>batch_id := b\<rparr>) = calculate_tx_hash tx \<and>
   calculate_tx_hash_deploy (txd\<lparr>batch_id := b\<rparr>) = calculate_tx_hash_deploy txd \<and>
   (case calculate_tx_hash tx of Inl e \<Rightarrow> True | Inr h \<Rightarrow> length h = 32)"
  by (simp add: calculate_tx_hash_def calculate_tx_hash_deploy_def solidity_keccak_def
      keccak_hexstr_def length_keccak256 split: sum.splits option.splits)



text \<open>
  C3, as the claim states it, fails on the length: the fields of the layout take
  \<open>20 + 20 + 32 + 8 + 6 + 4 + 1 + 8 = 99\<close> bytes, not 100. For the record \<open>example_tx\<close>
  the function hashes the 99 bytes \<open>example_packed\<close>.
\<close>

theorem transfer_leaf_is_99_bytes:
  "calculate_tx_hash example_tx = Inr (keccak256 example_packed) \<and>
   length example_packed = 99 \<and> length example_packed \<noteq> 100"
  using calculate_tx_hash_packed [OF transfer_record_example(1)]
  by (simp add: packed_transfer_example) (simp add: example_packed_def)


text \<open>
  C3, amended. For every transfer record whose addresses are hex addresses and whose
  numbers fit their fields, \<open>calculate_tx_hash\<close> of either batch script returns one
  Keccak-256 digest of the big-endian fixed-width encodings of from (20 bytes), to (20),
  amount (32), nonce (8), timestamp (6), recipient count (4), type (1) and salt (8),
  written one after the other with nothing between them; this text has 99 bytes.
\<close>

theorem transfer_leaf_packed:
  assumes "transfer_record tx" and "transfer_record txd"
  shows "calculate_tx_hash tx = Inr (keccak256 (packed_transfer tx)) \<and>
         length (packed_transfer tx) = 99 \<and>
         calculate_tx_hash_deploy txd = Inr (keccak256 (packed_transfer txd)) \<and>
         length (packed_transfer txd) = 99"
  using assms
  by (simp add: calculate_tx_hash_packed calculate_tx_hash_deploy_packed length_packed_transfer)

theorem transfer_leaf_packed_witness:
  "transfer_record example_tx \<and> transfer_record example_tx_deploy \<and>
   calculate_tx_hash example_tx = Inr (keccak256 (packed_transfer example_tx)) \<and>
   length (packed_transfer example_tx) = 99 \<and>
   calculate_tx_hash_deploy example_tx_deploy =
     Inr (keccak256 (packed_transfer example_tx_deploy)) \<and>
   length (packed_transfer example_tx_deploy) = 99"
  using transfer_leaf_packed [of example_tx example_tx_deploy]
  by (simp add: transfer_record_example)


section \<open>Numbers that do not fit their field\<close>

text \<open>
  The deploy script checks the three bounds, in the order nonce, timestamp, recipient
  count, before anything else, and names the field in the error.
\<close>

lemma deploy_checks_bounds:
  "\<not> in_uint 64 (nonce tx) \<Longrightarrow>
     calculate_tx_hash_deploy tx = Inl (ValueError ''nonce exceeds uint64'')"
  "in_uint 64 (nonce tx) \<Longrightarrow> \<not> in_uint 48 (timestamp tx) \<Longrightarrow>
     calculate_tx_hash_deploy tx = Inl (ValueError ''timestamp exceeds uint48'')"
  "in_uint 64 (nonce tx) \<Longrightarrow> in_uint 48 (timestamp tx) \<Longrightarrow>
     \<not> in_uint 32 (recipient_count tx) \<Longrightarrow>
     calculate_tx_hash_deploy tx = Inl (ValueError ''recipient_count exceeds uint32'')"
  by (auto simp: calculate_tx_hash_deploy_def ensure_uint_bounds_def in_uint_def)


text \<open>The run of \<open>calculate_tx_hash\<close> of \<open>batch/generateBatchRoot.py\<close> on \<open>overflow_tx\<close>.\<close>

lemma checksum_case_fixed:
  assumes "length body \<le> 64" and "\<forall>c\<in>set body. upper_char c = c"
  shows "checksum_case body = body"
  using checksum_case_map [of body "\<lambda>c. c"] assms by simp

lemma to_checksum_address_example:
  "to_checksum_address ''0x1234567890123456789012345678901234567890'' =
     Inr ''0x1234567890123456789012345678901234567890''"
  "to_checksum_address ''0x0000000000000000000000000000000000000001'' =
     Inr ''0x0000000000000000000000000000000000000001''"
  by (simp_all add: to_checksum_address_hex is_hex_address_example remove_0x_prefix_def
      lower_char_table checksum_case_fixed upper_char_def)

lemma encode_address_example:
  "hex_encode_abi_type (AbiAddress ''0x1234567890123456789012345678901234567890'') =
     Inr ''1234567890123456789012345678901234567890''"
  "hex_encode_abi_type (AbiAddress ''0x0000000000000000000000000000000000000001'') =
     Inr ''0000000000000000000000000000000000000001''"
  by (simp_all add: is_checksum_address_def is_hex_address_example to_checksum_address_example
      remove_0x_prefix_def zfill_def)

lemma hex_encode_overflow:
  "hex_encode_all
     [AbiAddress ''0x1234567890123456789012345678901234567890'',
      AbiAddress ''0x0000000000000000000000000000000000000001'',
      AbiUint 256 1000000, AbiUint 64 (2 ^ 64), AbiUint 48 1700000000, AbiUint 32 1,
      AbiUint 8 2, AbiUint 64 5] =
   Inr (''12345678901234567890123456789012345678900000000000000000000000000000000000000001''
       @ ''00000000000000000000000000000000000000000000000000000000000f4240''
       @ ''10000000000000000'' @ ''00006553f100'' @ ''00000001'' @ ''02'' @ ''0000000000000005'')"
  apply (simp only: hex_encode_all.simps encode_address_example sum.case)
  apply (simp add: hex_of_nat.simps zfill_def hex_char_table replicate_numeral)
  done


lemma decode_overflow:
  "decode_hex (CHR ''0'' #
      ''12345678901234567890123456789012345678900000000000000000000000000000000000000001''
       @ ''00000000000000000000000000000000000000000000000000000000000f4240''
       @ ''10000000000000000'' @ ''00006553f100'' @ ''00000001'' @ ''02'' @ ''0000000000000005'')
   = Some overflow_packed"
  by (simp add: hex_val_table overflow_packed_def)

lemma calculate_tx_hash_overflow:
  "calculate_tx_hash overflow_tx = Inr (keccak256 overflow_packed)"
  apply (simp only: calculate_tx_hash_def overflow_tx_def example_tx_def TransferData.simps
      to_checksum_address_example sum.case solidity_keccak_def hex_encode_overflow)
  apply (simp only: keccak_hexstr_def)
  apply (simp add: decode_overflow [simplified])
  done


text \<open>
  C8 on \<open>batch/generateBatchRoot.py\<close>, at a record whose nonce is \<open>2 ^ 64\<close>. The deploy
  script refuses the record with the error that names the nonce. \<open>calculate_tx_hash\<close> of
  \<open>batch/generateBatchRoot.py\<close> has no call of \<open>ensure_uint_bounds\<close>: it returns a digest,
  the one of the 100 bytes \<open>overflow_packed\<close>, in which every field after the amount is
  out of place.
\<close>

theorem nonce_overflow_is_hashed:
  "calculate_tx_hash_deploy overflow_tx_deploy = Inl (ValueError ''nonce exceeds uint64'') \<and>
   calculate_tx_hash overflow_tx = Inr (keccak256 overflow_packed) \<and>
   length overflow_packed = 100"
  apply (simp add: calculate_tx_hash_overflow)
  apply (simp add: calculate_tx_hash_deploy_def ensure_uint_bounds_def overflow_tx_deploy_def
      example_tx_deploy_def overflow_packed_def)
  done


section \<open>The whitelist leaf\<close>

lemma unat_byte_of_nibbles:
  assumes "h < 16" and "l < 16"
  shows "unat (of_nat (16 * h + l) :: byte) = 16 * h + l"
proof -
  from assms have "16 * h + l < 256" by simp
  then show ?thesis
    by (simp only: unat_of_nat) simp
qed

lemma hex_of_bytes_decode: "decode_hex s = Some bs \<Longrightarrow> hex_of_bytes bs = map lower_char s"
proof (induction s arbitrary: bs rule: decode_hex.induct)
  case 1
  then show ?case by (simp add: hex_of_bytes_def)
next
  case (2 c)
  then show ?case by simp
next
  case (3 c d rest)
  from "3.prems" obtain h l bs' where hl: "hex_val c = Some h" "hex_val d = Some l"
    and r: "decode_hex rest = Some bs'" and bs: "bs = of_nat (16 * h + l) # bs'"
    by (auto split: option.splits)
  from hl have lt: "h < 16" "l < 16" by (auto dest: hex_val_lt)
  from "3.IH" [OF hl r] have ih: "hex_of_bytes bs' = map lower_char rest" .
  have "hex_of_bytes bs =
          [hex_char (unat (of_nat (16 * h + l) :: byte) div 16),
           hex_char (unat (of_nat (16 * h + l) :: byte) mod 16)] @ hex_of_bytes bs'"
    by (simp add: hex_of_bytes_def bs)
  also have "\<dots> = [hex_char h, hex_char l] @ map lower_char rest"
    using lt by (simp only: unat_byte_of_nibbles [OF lt] ih) simp
  finally show ?case
    using hl by (simp add: hex_char_hex_val_lower)
qed

lemma normalize_shape:
  assumes "normalize addr = Inr a"
  shows "\<exists>r. length r = 40 \<and> list_all is_hex_digit r \<and> a = ''0x'' @ map lower_char r"
proof -
  define addr2 where "addr2 = (if take 2 (strip addr) = ''0x'' then strip addr else ''0x'' @ strip addr)"
  from assms have hex: "is_hex_address addr2" and a: "a = map lower_char addr2"
    by (auto simp: normalize_def Let_def addr2_def split: if_splits)
  have "take 2 addr2 = ''0x''"
    by (simp add: addr2_def)
  moreover from hex have "length addr2 \<ge> 2"
    using calculation by (cases addr2; cases "tl addr2") auto
  ultimately have split: "addr2 = ''0x'' @ drop 2 addr2"
    by (metis append_take_drop_id)
  then have "is_hex_address (CHR ''0'' # CHR ''x'' # drop 2 addr2)"
    using hex by simp
  then have "length (drop 2 addr2) = 40" and "list_all is_hex_digit (drop 2 addr2)"
    by (simp_all only: is_hex_address_0x)
  moreover have "a = ''0x'' @ map lower_char (drop 2 addr2)"
    by (subst a, subst split) (simp add: lower_char_table)
  ultimately show ?thesis by blast
qed

lemma leaf_hash_normalized:
  assumes "normalize addr = Inr a"
  shows "length (address_bytes a) = 20"
    and "a = ''0x'' @ hex_of_bytes (address_bytes a)"
    and "leaf_hash addr = Inr (keccak256 (replicate 12 0 @ address_bytes a))"
proof -
  from normalize_shape [OF assms] obtain r where len: "length r = 40"
    and hex: "list_all is_hex_digit r" and a: "a = ''0x'' @ map lower_char r"
    by blast
  from len have "even (length r)" by simp
  from decode_hex_total [OF this hex] obtain bs where bs: "decode_hex r = Some bs"
    by blast
  have "map hex_val (map lower_char r) = map hex_val r"
    using hex by (simp add: list_all_iff hex_val_lower_char)
  from decode_hex_cong [OF this] bs have dl: "decode_hex (map lower_char r) = Some bs"
    by simp
  have d2: "drop 2 a = map lower_char r" and r2: "remove_0x_prefix a = map lower_char r"
    by (simp_all add: a remove_0x_prefix_0x)
  from dl r2 have ab: "address_bytes a = bs"
    by (simp add: address_bytes_def)
  from length_decode_hex [OF bs] len show "length (address_bytes a) = 20"
    by (simp add: ab)
  from hex_of_bytes_decode [OF dl] have h: "hex_of_bytes (address_bytes a) = map lower_char r"
    by (simp add: ab lower_lower comp_def)
  show "a = ''0x'' @ hex_of_bytes (address_bytes a)"
    by (simp only: h) (rule a)
  from dl d2 show "leaf_hash addr = Inr (keccak256 (replicate 12 0 @ address_bytes a))"
    by (simp add: leaf_hash_def assms ab)
qed


lemma hex_digit_not_space: "is_hex_digit c \<Longrightarrow> \<not> is_space c"
  by (auto simp: is_hex_digit_def hex_val_def is_space_def Let_def split: if_splits)

lemma is_hex_digit_hex_char: "v < 16 \<Longrightarrow> is_hex_digit (hex_char v)"
  by (simp add: is_hex_digit_def hex_val_hex_char)

lemma length_hex_of_bytes: "length (hex_of_bytes bs) = 2 * length bs"
  by (induction bs) (simp_all add: hex_of_bytes_def)

lemma hex_of_bytes_digits: "list_all is_hex_digit (hex_of_bytes bs)"
proof (induction bs)
  case Nil
  then show ?case by (simp add: hex_of_bytes_def)
next
  case (Cons b bs)
  have "unat b < 2 ^ LENGTH(8)" by (rule unsigned_less)
  then have "unat b < 256" by simp
  then have "unat b div 16 < 16" by simp
  with Cons show ?case
    by (simp add: hex_of_bytes_def is_hex_digit_hex_char)
qed

lemma decode_hex_of_bytes: "decode_hex (hex_of_bytes bs) = Some bs"
proof (induction bs)
  case Nil
  then show ?case by (simp add: hex_of_bytes_def)
next
  case (Cons b bs)
  have "unat b < 2 ^ LENGTH(8)" by (rule unsigned_less)
  then have "unat b < 256" by simp
  then have lt: "unat b div 16 < 16" by simp
  have "hex_of_bytes (b # bs) =
          hex_char (unat b div 16) # hex_char (unat b mod 16) # hex_of_bytes bs"
    by (simp add: hex_of_bytes_def)
  moreover have "(of_nat (16 * (unat b div 16) + unat b mod 16) :: byte) = b"
    by simp
  ultimately show ?case
    using Cons lt by (simp only: decode_hex.simps hex_val_hex_char option.case)
qed

lemma strip_fixed:
  assumes "s \<noteq> []" and "\<not> is_space (hd s)" and "\<not> is_space (last s)"
  shows "strip s = s"
proof -
  from assms have "dropWhile is_space s = s"
    by (cases s) simp_all
  moreover from assms have "rev s \<noteq> []" and "\<not> is_space (hd (rev s))"
    by (simp_all add: hd_rev)
  then have "dropWhile is_space (rev s) = rev s"
    by (cases "rev s") simp_all
  ultimately show ?thesis
    by (simp add: strip_def)
qed

lemma normalize_canonical:
  assumes "length bs = 20"
  shows "normalize (''0x'' @ hex_of_bytes bs) = Inr (''0x'' @ hex_of_bytes bs)"
proof -
  let ?h = "hex_of_bytes bs"
  have len: "length ?h = 40" using assms by (simp add: length_hex_of_bytes)
  then have ne: "?h \<noteq> []" by auto
  have dig: "list_all is_hex_digit ?h" by (rule hex_of_bytes_digits)
  with ne have "is_hex_digit (last ?h)"
    by (simp add: list_all_iff)
  then have "\<not> is_space (last (''0x'' @ ?h))"
    using ne by (simp add: hex_digit_not_space)
  moreover have "\<not> is_space (hd (''0x'' @ ?h))"
    by (simp add: is_space_def)
  ultimately have st: "strip (''0x'' @ ?h) = ''0x'' @ ?h"
    by (intro strip_fixed) simp_all
  have hex: "is_hex_address (''0x'' @ ?h)"
    using len dig by (simp add: is_hex_address_0x)
  from decode_hex_of_bytes [of bs] have "map lower_char ?h = ?h"
    by (simp add: hex_of_bytes_decode [symmetric])
  then have "map lower_char (''0x'' @ ?h) = ''0x'' @ ?h"
    by (simp add: lower_char_table)
  with hex show ?thesis
    by (simp only: normalize_def st Let_def) simp
qed

lemma leaf_hash_canonical:
  assumes "length bs = 20"
  shows "leaf_hash (''0x'' @ hex_of_bytes bs) = Inr (keccak256 (replicate 12 0 @ bs))"
proof -
  have "address_bytes (''0x'' @ hex_of_bytes bs) = bs"
    by (simp add: address_bytes_def remove_0x_prefix_0x decode_hex_of_bytes)
  with leaf_hash_normalized(3) [OF normalize_canonical [OF assms]] show ?thesis
    by simp
qed


lemma is_space_table: "is_space CHR '' ''" "\<not> is_space CHR ''0''" "\<not> is_space CHR ''1''"
  by (simp_all add: is_space_def)

lemma normalize_example:
  "normalize example_address = Inr ''0xabcdef0123456789abcdef0123456789abcdef01''"
  by (simp add: normalize_def example_address_def strip_def is_space_table Let_def
      is_hex_address_def remove_0x_prefix_def is_hex_digit_def hex_val_table lower_char_table)

lemma address_bytes_example:
  "address_bytes ''0xabcdef0123456789abcdef0123456789abcdef01'' = example_address_bytes"
  by (simp add: address_bytes_def remove_0x_prefix_def hex_val_table example_address_bytes_def)


text \<open>
  C9. For every address \<open>bs\<close> of 20 bytes, \<open>leaf_hash\<close> of its canonical text is one
  Keccak-256 digest of the 32 bytes made of 12 zero bytes and \<open>bs\<close>. More generally, for
  every text that \<open>normalize\<close> accepts, the normalised text \<open>a\<close> is \<open>0x\<close> and the lower-case
  digits of 20 bytes, and \<open>leaf_hash\<close> is the digest of 12 zero bytes and these 20 bytes.
  In the deploy script, when \<open>b58decode_check\<close> returns one prefix byte and \<open>bs\<close>, the
  leaf \<open>keccak(tron_to_evm_bytes32(addr))\<close> is the same digest.
\<close>

theorem whitelist_leaf_hash:
  assumes "length bs = 20" and "normalize addr = Inr a"
    and "b58decode_check tron_addr = Inr (p # bs)"
  shows "leaf_hash (''0x'' @ hex_of_bytes bs) = Inr (keccak256 (replicate 12 0 @ bs)) \<and>
         length (replicate 12 0 @ bs) = 32 \<and>
         length (address_bytes a) = 20 \<and> a = ''0x'' @ hex_of_bytes (address_bytes a) \<and>
         leaf_hash addr = Inr (keccak256 (replicate 12 0 @ address_bytes a)) \<and>
         deploy_leaf b58decode_check tron_addr = Inr (keccak256 (replicate 12 0 @ bs))"
  using leaf_hash_canonical [OF assms(1)] leaf_hash_normalized [OF assms(2)] assms(1,3)
  by (simp add: deploy_leaf_def tron_to_evm_bytes32_def)

theorem whitelist_leaf_hash_witness:
  "length example_address_bytes = 20 \<and>
   normalize example_address = Inr ''0xabcdef0123456789abcdef0123456789abcdef01'' \<and>
   example_b58decode_check ''TKWvD71EMFTpFVGZyqqX9fC6MQgcR9H76M'' =
     Inr (0x41 # example_address_bytes) \<and>
   leaf_hash example_address = Inr (keccak256 (replicate 12 0 @ example_address_bytes)) \<and>
   deploy_leaf example_b58decode_check ''TKWvD71EMFTpFVGZyqqX9fC6MQgcR9H76M'' =
     Inr (keccak256 (replicate 12 0 @ example_address_bytes))"
  using whitelist_leaf_hash [of example_address_bytes example_address
      "''0xabcdef0123456789abcdef0123456789abcdef01''"
      example_b58decode_check "''TKWvD71EMFTpFVGZyqqX9fC6MQgcR9H76M''" "0x41"]
  by (simp add: normalize_example address_bytes_example example_b58decode_check_def)
     (simp add: example_address_bytes_def)


end
